theory Spec2Isabelle
  imports Complex_Main "HOL-Library.Char_ord" "HOL-Library.List_Lexorder" "HOL-Library.Multiset"
begin

section \<open>JavaScript numbers\<close>

text \<open>
  The page computes with JavaScript numbers. A number is modelled as an exact rational or
  \<open>NaN\<close>; the binary rounding of IEEE doubles and the two infinities are outside the
  model (the only division of the page is by the constant 60). Any operation with a
  \<open>NaN\<close> operand gives \<open>NaN\<close>, and every comparison with \<open>NaN\<close> is false.
\<close>

datatype number = Num rat | NaN

fun num_add :: "number \<Rightarrow> number \<Rightarrow> number" where
  "num_add (Num a) (Num b) = Num (a + b)"
| "num_add _ _ = NaN"

fun num_sub :: "number \<Rightarrow> number \<Rightarrow> number" where
  "num_sub (Num a) (Num b) = Num (a - b)"
| "num_sub _ _ = NaN"

fun num_div :: "number \<Rightarrow> number \<Rightarrow> number" where
  "num_div (Num a) (Num b) = (if b = 0 then NaN else Num (a / b))"
| "num_div _ _ = NaN"

fun num_gt :: "number \<Rightarrow> number \<Rightarrow> bool" where
  "num_gt (Num a) (Num b) = (b < a)"
| "num_gt _ _ = False"

text \<open>
  \<open>parseFloat(x.toFixed(2))\<close>. \<open>toFixed\<close> prints the sign and then, for a magnitude below
  \<open>10^21\<close>, the integer \<open>n\<close> with \<open>n / 100\<close> nearest to the magnitude (the larger \<open>n\<close>
  on a tie); from \<open>10^21\<close> on it prints the number itself. \<open>parseFloat\<close> reads the
  printed number back.
\<close>

definition toFixed2 :: "number \<Rightarrow> number" where
  "toFixed2 x =
     (case x of
        NaN \<Rightarrow> NaN
      | Num r \<Rightarrow>
          (if 10 ^ 21 \<le> \<bar>r\<bar> then Num r
           else if r < 0 then Num (- (of_int \<lfloor>\<bar>r\<bar> * 100 + 1 / 2\<rfloor> / 100))
           else Num (of_int \<lfloor>\<bar>r\<bar> * 100 + 1 / 2\<rfloor> / 100)))"

text \<open>The running total of a list of numbers, added from the left starting at 0.\<close>

definition num_sum :: "number list \<Rightarrow> number" where
  "num_sum xs = foldl num_add (Num 0) xs"

section \<open>Log entries\<close>

text \<open>
  Modelled from the spec: the \<open>LogEntry\<close> type, whose declaration (\<open>@/lib/types\<close>) is not
  among the source files. The spec's data model lists an identifier that is absent on a
  not yet saved entry, the date as a \<open>yyyy-MM-dd\<close> string, the two clock times as \<open>HH:mm\<close>
  strings, the break in whole minutes and two server timestamps. A clock time may be
  missing, hence the option.
\<close>

record LogEntry =
  logId :: "string option"
  date :: string
  timeIn :: "string option"
  timeOut :: "string option"
  breakMinutes :: int
  createdAt :: "int option"
  updatedAt :: "int option"

section \<open>The calendar of ECMAScript time values\<close>

text \<open>
  A valid \<open>Date\<close> holds a time value: the milliseconds since 1970-01-01T00:00 UTC. The
  functions below are the day, year, month and weekday functions of the language
  standard, on which the \<open>Date\<close> methods are defined.
\<close>

definition msPerDay :: int where
  "msPerDay = 86400000"

definition Day :: "int \<Rightarrow> int" where
  "Day t = t div msPerDay"

definition TimeWithinDay :: "int \<Rightarrow> int" where
  "TimeWithinDay t = t mod msPerDay"

definition DaysInYear :: "int \<Rightarrow> int" where
  "DaysInYear y =
     (if y mod 4 \<noteq> 0 then 365
      else if y mod 100 \<noteq> 0 then 366
      else if y mod 400 \<noteq> 0 then 365
      else 366)"

definition DayFromYear :: "int \<Rightarrow> int" where
  "DayFromYear y =
     365 * (y - 1970) + (y - 1969) div 4 - (y - 1901) div 100 + (y - 1601) div 400"

lemma div_step:
  fixes a k :: int
  assumes "0 < k"
  shows "(a + 1) div k = a div k + (if (a + 1) mod k = 0 then 1 else 0)"
proof -
  have a: "a = k * (a div k) + a mod k" by simp
  have r: "0 \<le> a mod k" "a mod k < k" using assms by simp_all
  show ?thesis
  proof (cases "a mod k + 1 = k")
    case True
    have "a + 1 = k * (a div k) + (a mod k + 1)" using a by linarith
    also have "\<dots> = k * (a div k + 1) + 0" using True by (simp add: algebra_simps)
    finally have e: "a + 1 = k * (a div k + 1) + 0" .
    have "(a + 1) div k = a div k + 1" using int_div_pos_eq [OF e] assms by simp
    moreover have "(a + 1) mod k = 0" using int_mod_pos_eq [OF e] assms by simp
    ultimately show ?thesis by simp
  next
    case False
    then have lt: "a mod k + 1 < k" using r by linarith
    have e: "a + 1 = k * (a div k) + (a mod k + 1)" using a by linarith
    have "(a + 1) div k = a div k" using int_div_pos_eq [OF e] lt r by simp
    moreover have "(a + 1) mod k = a mod k + 1" using int_mod_pos_eq [OF e] lt r by simp
    ultimately show ?thesis using r by simp
  qed
qed

lemma mod4_shift: "((y::int) - 1968) mod 4 = y mod 4"
  by algebra

lemma mod100_shift: "((y::int) - 1900) mod 100 = y mod 100"
  by algebra

lemma mod400_shift: "((y::int) - 1600) mod 400 = y mod 400"
  by algebra

lemma mod400_mod100: "(y::int) mod 400 = 0 \<Longrightarrow> y mod 100 = 0"
proof -
  assume "y mod 400 = 0"
  then have "400 dvd y" by (simp add: dvd_eq_mod_eq_0)
  moreover have "(100::int) dvd 400" by simp
  ultimately have "100 dvd y" by (rule dvd_trans [rotated])
  then show ?thesis by (simp add: dvd_eq_mod_eq_0)
qed

lemma mod100_mod4: "(y::int) mod 100 = 0 \<Longrightarrow> y mod 4 = 0"
proof -
  assume "y mod 100 = 0"
  then have "100 dvd y" by (simp add: dvd_eq_mod_eq_0)
  moreover have "(4::int) dvd 100" by simp
  ultimately have "4 dvd y" by (rule dvd_trans [rotated])
  then show ?thesis by (simp add: dvd_eq_mod_eq_0)
qed

lemma DayFromYear_next: "DayFromYear (y + 1) = DayFromYear y + DaysInYear y"
proof -
  have 1: "(y + 1 - 1969) div 4 = (y - 1969) div 4 + (if y mod 4 = 0 then 1 else 0)"
  proof -
    have "(y - 1969 + 1) div 4 = (y - 1969) div 4 + (if (y - 1969 + 1) mod 4 = 0 then 1 else 0)"
      by (rule div_step) simp
    then show ?thesis using mod4_shift [of y] by simp
  qed
  have 2: "(y + 1 - 1901) div 100 = (y - 1901) div 100 + (if y mod 100 = 0 then 1 else 0)"
  proof -
    have "(y - 1901 + 1) div 100
        = (y - 1901) div 100 + (if (y - 1901 + 1) mod 100 = 0 then 1 else 0)"
      by (rule div_step) simp
    then show ?thesis using mod100_shift [of y] by simp
  qed
  have 3: "(y + 1 - 1601) div 400 = (y - 1601) div 400 + (if y mod 400 = 0 then 1 else 0)"
  proof -
    have "(y - 1601 + 1) div 400
        = (y - 1601) div 400 + (if (y - 1601 + 1) mod 400 = 0 then 1 else 0)"
      by (rule div_step) simp
    then show ?thesis using mod400_shift [of y] by simp
  qed
  have g: "365 * (y + 1 - 1970) + (A + a) - (B + b) + (C + c)
      = 365 * (y - 1970) + A - B + C + 365 + a - b + c" for A B C a b c :: int
    by (simp add: algebra_simps)
  have "DayFromYear (y + 1)
      = 365 * (y + 1 - 1970) + (y + 1 - 1969) div 4 - (y + 1 - 1901) div 100
        + (y + 1 - 1601) div 400"
    unfolding DayFromYear_def ..
  also have "\<dots> = DayFromYear y + 365 + (if y mod 4 = 0 then 1 else 0)
      - (if y mod 100 = 0 then 1 else 0) + (if y mod 400 = 0 then 1 else 0)"
    unfolding 1 2 3 DayFromYear_def by (rule g)
  also have "\<dots> = DayFromYear y + DaysInYear y"
    using mod400_mod100 [of y] mod100_mod4 [of y]
    unfolding DaysInYear_def
    by (cases "y mod 4 = 0"; cases "y mod 100 = 0"; cases "y mod 400 = 0") simp_all
  finally show ?thesis .
qed

lemma DaysInYear_bounds: "365 \<le> DaysInYear y" "DaysInYear y \<le> 366"
  by (simp_all add: DaysInYear_def)

lemma DayFromYear_prev: "DayFromYear (y - 1) < DayFromYear y"
  using DayFromYear_next [of "y - 1"] DaysInYear_bounds(1) [of "y - 1"] by simp

text \<open>
  \<open>YearFromTime\<close> is the largest year whose first day is not after the given day. The
  search starts at a year that is not too small and walks down to it.
\<close>

function year_down :: "int \<Rightarrow> int \<Rightarrow> int" where
  "year_down y d = (if DayFromYear y \<le> d then y else year_down (y - 1) d)"
  by pat_completeness auto
termination
proof (relation "measure (\<lambda>(y, d). nat (DayFromYear y - d))")
  show "wf (measure (\<lambda>(y, d). nat (DayFromYear y - d)))" by simp
next
  fix y d :: int
  assume "\<not> DayFromYear y \<le> d"
  then show "((y - 1, d), (y, d)) \<in> measure (\<lambda>(y, d). nat (DayFromYear y - d))"
    using DayFromYear_prev [of y] by simp
qed

declare year_down.simps [simp del]

definition YearFromTime :: "int \<Rightarrow> int" where
  "YearFromTime t =
     year_down (if Day t < 0 then 1969 else 1970 + Day t div 365) (Day t)"

definition InLeapYear :: "int \<Rightarrow> int" where
  "InLeapYear t = (if DaysInYear (YearFromTime t) = 366 then 1 else 0)"

definition DayWithinYear :: "int \<Rightarrow> int" where
  "DayWithinYear t = Day t - DayFromYear (YearFromTime t)"

definition MonthFromTime :: "int \<Rightarrow> int" where
  "MonthFromTime t =
     (let d = DayWithinYear t; l = InLeapYear t
      in if d < 31 then 0
         else if d < 59 + l then 1
         else if d < 90 + l then 2
         else if d < 120 + l then 3
         else if d < 151 + l then 4
         else if d < 181 + l then 5
         else if d < 212 + l then 6
         else if d < 243 + l then 7
         else if d < 273 + l then 8
         else if d < 304 + l then 9
         else if d < 334 + l then 10
         else 11)"

text \<open>The day within the year on which month \<open>m\<close> (0 to 11) starts; \<open>l\<close> is 1 in a leap year.\<close>

definition MonthStart :: "int \<Rightarrow> int \<Rightarrow> int" where
  "MonthStart l m =
     (if m = 0 then 0
      else if m = 1 then 31
      else if m = 2 then 59 + l
      else if m = 3 then 90 + l
      else if m = 4 then 120 + l
      else if m = 5 then 151 + l
      else if m = 6 then 181 + l
      else if m = 7 then 212 + l
      else if m = 8 then 243 + l
      else if m = 9 then 273 + l
      else if m = 10 then 304 + l
      else 334 + l)"

definition DateFromTime :: "int \<Rightarrow> int" where
  "DateFromTime t = DayWithinYear t - MonthStart (InLeapYear t) (MonthFromTime t) + 1"

definition WeekDay :: "int \<Rightarrow> int" where
  "WeekDay t = (Day t + 4) mod 7"

definition HourFromTime :: "int \<Rightarrow> int" where
  "HourFromTime t = (t div 3600000) mod 24"

definition MakeTime :: "int \<Rightarrow> int \<Rightarrow> int \<Rightarrow> int \<Rightarrow> int" where
  "MakeTime h m s ms = h * 3600000 + m * 60000 + s * 1000 + ms"

text \<open>
  \<open>MakeDay\<close> for a month from 0 to 11 (the only use here): the day number of the first
  of the month, plus the date, minus one. The date may lie outside the month.
\<close>

definition MakeDay :: "int \<Rightarrow> int \<Rightarrow> int \<Rightarrow> int" where
  "MakeDay y m dt =
     DayFromYear y + MonthStart (if DaysInYear y = 366 then 1 else 0) m + dt - 1"

definition MakeDate :: "int \<Rightarrow> int \<Rightarrow> int" where
  "MakeDate day time = day * msPerDay + time"

text \<open>
  Local time in a zone of constant offset. \<open>tza\<close> is the offset of the local time zone
  from UTC in milliseconds. The week of the weekly total and the dates of the view are
  computed with it; daylight-saving changes are outside that part of the model. The
  clock times of one entry are read in a zone whose offset may change, defined with
  \<open>parse\<close> below.
\<close>

definition LocalTime :: "int \<Rightarrow> int \<Rightarrow> int" where
  "LocalTime tza t = t + tza"

definition UTC :: "int \<Rightarrow> int \<Rightarrow> int" where
  "UTC tza t = t - tza"

subsection \<open>Methods of a valid Date\<close>

definition getFullYear :: "int \<Rightarrow> int \<Rightarrow> int" where
  "getFullYear tza t = YearFromTime (LocalTime tza t)"

definition getMonth :: "int \<Rightarrow> int \<Rightarrow> int" where
  "getMonth tza t = MonthFromTime (LocalTime tza t)"

definition getDate :: "int \<Rightarrow> int \<Rightarrow> int" where
  "getDate tza t = DateFromTime (LocalTime tza t)"

definition getDay :: "int \<Rightarrow> int \<Rightarrow> int" where
  "getDay tza t = WeekDay (LocalTime tza t)"

definition setDate :: "int \<Rightarrow> int \<Rightarrow> int \<Rightarrow> int" where
  "setDate tza t dt =
     (let lt = LocalTime tza t
      in UTC tza (MakeDate (MakeDay (YearFromTime lt) (MonthFromTime lt) dt) (TimeWithinDay lt)))"

definition setHours :: "int \<Rightarrow> int \<Rightarrow> int \<Rightarrow> int \<Rightarrow> int \<Rightarrow> int \<Rightarrow> int" where
  "setHours tza t h m s ms =
     (let lt = LocalTime tza t in UTC tza (MakeDate (Day lt) (MakeTime h m s ms)))"

lemma setDate_getDate: "setDate tza t (getDate tza t + n) = t + n * msPerDay"
proof -
  define lt where "lt = LocalTime tza t"
  have "MakeDay (YearFromTime lt) (MonthFromTime lt) (DateFromTime lt + n) = Day lt + n"
    by (simp add: MakeDay_def DateFromTime_def InLeapYear_def DayWithinYear_def)
  moreover have "MakeDate (Day lt + n) (TimeWithinDay lt) = lt + n * msPerDay"
    by (simp add: MakeDate_def Day_def TimeWithinDay_def algebra_simps)
  ultimately show ?thesis
    by (simp add: setDate_def getDate_def Let_def lt_def [symmetric]) (simp add: lt_def UTC_def LocalTime_def)
qed

lemma setHours_midnight: "setHours tza t 0 0 0 0 = Day (LocalTime tza t) * msPerDay - tza"
  by (simp add: setHours_def MakeDate_def MakeTime_def UTC_def)

lemma msPerDay_pos: "0 < msPerDay"
  by (simp add: msPerDay_def)

lemma Day_shift: "Day (t + n * msPerDay) = Day t + n"
  using msPerDay_pos by (simp add: Day_def)

lemma Day_bounds: "Day t * msPerDay \<le> t" "t < (Day t + 1) * msPerDay"
proof -
  have e: "t = Day t * msPerDay + t mod msPerDay" by (simp add: Day_def)
  have "0 \<le> t mod msPerDay" "t mod msPerDay < msPerDay" using msPerDay_pos by simp_all
  then show "Day t * msPerDay \<le> t" "t < (Day t + 1) * msPerDay"
    using e by (simp_all add: algebra_simps)
qed

lemma next_day_start:
  "setHours tza (setDate tza t (getDate tza t + 1)) 0 0 0 0
     = (Day (LocalTime tza t) + 1) * msPerDay - tza"
proof -
  have "LocalTime tza (t + 1 * msPerDay) = LocalTime tza t + 1 * msPerDay"
    by (simp add: LocalTime_def)
  then show ?thesis
    unfolding setDate_getDate setHours_midnight by (simp only: Day_shift)
qed

lemma next_day_later: "t < setHours tza (setDate tza t (getDate tza t + 1)) 0 0 0 0"
  using Day_bounds(2) [of "LocalTime tza t"] unfolding next_day_start
  by (simp add: LocalTime_def)

section \<open>Printing and reading dates and clock times\<close>

definition digit_char :: "nat \<Rightarrow> char" where
  "digit_char n = ''0123456789'' ! n"

definition is_digit :: "char \<Rightarrow> bool" where
  "is_digit c = (c \<in> set ''0123456789'')"

text \<open>The value of a digit character: its code minus the code of \<open>0\<close>.\<close>

definition digit_val :: "char \<Rightarrow> nat" where
  "digit_val c = of_char c - of_char (CHR ''0'')"

definition digits_val :: "string \<Rightarrow> nat" where
  "digits_val s = foldl (\<lambda>a c. 10 * a + digit_val c) 0 s"

text \<open>\<open>Number.prototype.toString\<close> on a natural number: its decimal digits.\<close>

fun toString_nat :: "nat \<Rightarrow> string" where
  "toString_nat n =
     (if n < 10 then [digit_char n] else toString_nat (n div 10) @ [digit_char (n mod 10)])"

declare toString_nat.simps [simp del]

definition padStart :: "nat \<Rightarrow> char \<Rightarrow> string \<Rightarrow> string" where
  "padStart targetLength c s = replicate (targetLength - length s) c @ s"

text \<open>The helper of date-fns that prints a date field: sign, then the magnitude padded with zeros.\<close>

definition addLeadingZeros :: "int \<Rightarrow> nat \<Rightarrow> string" where
  "addLeadingZeros number targetLength =
     (if number < 0 then ''-'' else [])
       @ padStart targetLength (CHR ''0'') (toString_nat (nat \<bar>number\<bar>))"

text \<open>
  \<open>format\<close> of date-fns on a valid date, for the three patterns the page uses. The \<open>yyyy\<close>
  token prints the year of the era: a year \<open>y \<le> 0\<close> prints as \<open>1 - y\<close>.
\<close>

definition format_yyyy :: "int \<Rightarrow> int \<Rightarrow> string" where
  "format_yyyy tza t =
     (let signedYear = getFullYear tza t;
          year = (if signedYear > 0 then signedYear else 1 - signedYear)
      in addLeadingZeros year 4)"

definition format_MM :: "int \<Rightarrow> int \<Rightarrow> string" where
  "format_MM tza t = addLeadingZeros (getMonth tza t + 1) 2"

definition format_dd :: "int \<Rightarrow> int \<Rightarrow> string" where
  "format_dd tza t = addLeadingZeros (getDate tza t) 2"

definition format_yyyy_MM_dd :: "int \<Rightarrow> int \<Rightarrow> string" where
  "format_yyyy_MM_dd tza t = format_yyyy tza t @ ''-'' @ format_MM tza t @ ''-'' @ format_dd tza t"

text \<open>A \<open>Date\<close> object: a time value, or no value (\<open>Invalid Date\<close>).\<close>

type_synonym Date = "int option"

text \<open>The number of days of month \<open>m\<close> (1 to 12) of year \<open>y\<close>.\<close>

definition DaysInMonth :: "int \<Rightarrow> int \<Rightarrow> int" where
  "DaysInMonth y m =
     (if m = 2 then (if DaysInYear y = 366 then 29 else 28)
      else if m = 4 \<or> m = 6 \<or> m = 9 \<or> m = 11 then 30
      else 31)"

text \<open>
  Reading a date string of the form \<open>yyyy-MM-dd\<close>, the form of the data model: four
  digits, two digits and two digits that name a day of the calendar. Both \<open>new Date(s)\<close>
  and \<open>parseISO(s)\<close> accept further forms of strings; those are not modelled and count as
  unreadable here, so the results below speak about entries whose date has this form.
\<close>

fun parse_ymd :: "string \<Rightarrow> (int \<times> int \<times> int) option" where
  "parse_ymd [y1, y2, y3, y4, h1, m1, m2, h2, d1, d2] =
     (if list_all is_digit [y1, y2, y3, y4, m1, m2, d1, d2] \<and> h1 = CHR ''-'' \<and> h2 = CHR ''-''
      then (let y = int (digits_val [y1, y2, y3, y4]);
                m = int (digits_val [m1, m2]);
                d = int (digits_val [d1, d2])
            in if 1 \<le> m \<and> m \<le> 12 \<and> 1 \<le> d \<and> d \<le> DaysInMonth y m
               then Some (y, m, d) else None)
      else None)"
| "parse_ymd _ = None"

text \<open>\<open>new Date(s)\<close>: a date-only string is read as midnight UTC of that day.\<close>

definition new_Date :: "string \<Rightarrow> Date" where
  "new_Date s =
     (case parse_ymd s of
        None \<Rightarrow> None
      | Some (y, m, d) \<Rightarrow> Some (MakeDate (MakeDay y (m - 1) d) 0))"

text \<open>\<open>parseISO(s)\<close> of date-fns: a date-only string is read as local midnight of that day.\<close>

definition parseISO :: "int \<Rightarrow> string \<Rightarrow> Date" where
  "parseISO tza s =
     (case parse_ymd s of
        None \<Rightarrow> None
      | Some (y, m, d) \<Rightarrow> Some (UTC tza (MakeDate (MakeDay y (m - 1) d) 0)))"

text \<open>
  \<open>parse(s, "HH:mm", ref)\<close> of date-fns. Each of the two tokens takes one or two leading
  digits (two when there are two), the colon must follow the hour, and only white space
  may remain at the end (the ASCII white space is modelled). Hours above 23 and minutes
  above 59 are refused. The hour and then the minute are set on the reference date in
  the local time of the zone, with seconds and milliseconds zero.
\<close>

definition is_space :: "char \<Rightarrow> bool" where
  "is_space c = (c \<in> set [CHR 0x20, CHR 0x09, CHR 0x0A, CHR 0x0B, CHR 0x0C, CHR 0x0D])"

fun take_digits2 :: "string \<Rightarrow> (nat \<times> string) option" where
  "take_digits2 (c1 # c2 # r) =
     (if is_digit c1 \<and> is_digit c2 then Some (digits_val [c1, c2], r)
      else if is_digit c1 then Some (digit_val c1, c2 # r)
      else None)"
| "take_digits2 [c1] = (if is_digit c1 then Some (digit_val c1, []) else None)"
| "take_digits2 [] = None"

definition parse_HHmm :: "string \<Rightarrow> (nat \<times> nat) option" where
  "parse_HHmm s =
     (case take_digits2 s of
        None \<Rightarrow> None
      | Some (h, r1) \<Rightarrow>
          (case r1 of
             [] \<Rightarrow> None
           | c # r2 \<Rightarrow>
               if c = CHR '':'' then
                 (case take_digits2 r2 of
                    None \<Rightarrow> None
                  | Some (m, r3) \<Rightarrow>
                      if list_all is_space r3 \<and> h \<le> 23 \<and> m \<le> 59 then Some (h, m) else None)
               else None))"

text \<open>
  A time zone whose offset may change. ECMAScript reads the offset in two ways, the two
  cases of its \<open>LocalTZA(t, isUTC)\<close>: \<open>offsetAtUTC\<close> is the offset in force at a UTC time
  value, and \<open>offsetAtLocal\<close> is the offset under which a local time value is read (the
  offset before the change for a local time that a change skips or repeats). Both are
  in milliseconds. \<open>fixed_zone\<close> is the zone whose offset never changes.
\<close>

record zone =
  offsetAtUTC :: "int \<Rightarrow> int"
  offsetAtLocal :: "int \<Rightarrow> int"

definition fixed_zone :: "int \<Rightarrow> zone" where
  "fixed_zone tza = \<lparr>offsetAtUTC = (\<lambda>t. tza), offsetAtLocal = (\<lambda>t. tza)\<rparr>"

definition LocalTime_in :: "zone \<Rightarrow> int \<Rightarrow> int" where
  "LocalTime_in z t = t + offsetAtUTC z t"

definition UTC_in :: "zone \<Rightarrow> int \<Rightarrow> int" where
  "UTC_in z t = t - offsetAtLocal z t"

text \<open>\<open>setHours\<close> and \<open>setMinutes\<close> of a valid Date in such a zone.\<close>

definition setHours_in :: "zone \<Rightarrow> int \<Rightarrow> int \<Rightarrow> int \<Rightarrow> int \<Rightarrow> int \<Rightarrow> int" where
  "setHours_in z t h m s ms =
     (let lt = LocalTime_in z t in UTC_in z (MakeDate (Day lt) (MakeTime h m s ms)))"

definition setMinutes_in :: "zone \<Rightarrow> int \<Rightarrow> int \<Rightarrow> int \<Rightarrow> int \<Rightarrow> int" where
  "setMinutes_in z t m s ms =
     (let lt = LocalTime_in z t
      in UTC_in z (MakeDate (Day lt) (MakeTime (HourFromTime lt) m s ms)))"

lemma LocalTime_in_fixed: "LocalTime_in (fixed_zone tza) t = LocalTime tza t"
  by (simp add: LocalTime_in_def fixed_zone_def LocalTime_def)

lemma UTC_in_fixed: "UTC_in (fixed_zone tza) t = UTC tza t"
  by (simp add: UTC_in_def fixed_zone_def UTC_def)

lemma setHours_in_fixed: "setHours_in (fixed_zone tza) t h m s ms = setHours tza t h m s ms"
  by (simp add: setHours_in_def setHours_def LocalTime_in_fixed UTC_in_fixed)

definition parse :: "zone \<Rightarrow> string \<Rightarrow> Date \<Rightarrow> Date" where
  "parse z dateStr referenceDate =
     (case parse_HHmm dateStr of
        None \<Rightarrow> None
      | Some (h, m) \<Rightarrow>
          (case referenceDate of
             None \<Rightarrow> None
           | Some r \<Rightarrow> Some (setMinutes_in z (setHours_in z r (int h) 0 0 0) (int m) 0 0)))"

text \<open>
  \<open>differenceInMinutes\<close> of date-fns: the difference of the two time values in minutes,
  cut towards zero; \<open>NaN\<close> when a date is invalid.
\<close>

definition trunc_div :: "int \<Rightarrow> int \<Rightarrow> int" where
  "trunc_div a b = (if a < 0 then - ((- a) div b) else a div b)"

definition differenceInMinutes :: "Date \<Rightarrow> Date \<Rightarrow> number" where
  "differenceInMinutes laterDate earlierDate =
     (case (laterDate, earlierDate) of
        (Some a, Some b) \<Rightarrow> Num (of_int (trunc_div (a - b) 60000))
      | _ \<Rightarrow> NaN)"

section \<open>Date helpers of date-fns used by the weekly total\<close>

definition startOfWeek :: "int \<Rightarrow> int \<Rightarrow> int \<Rightarrow> int" where
  "startOfWeek tza weekStartsOn d =
     (let day = getDay tza d;
          diff = (if day < weekStartsOn then 7 else 0) + day - weekStartsOn;
          d1 = setDate tza d (getDate tza d - diff)
      in setHours tza d1 0 0 0 0)"

definition endOfWeek :: "int \<Rightarrow> int \<Rightarrow> int \<Rightarrow> int" where
  "endOfWeek tza weekStartsOn d =
     (let day = getDay tza d;
          diff = (if day < weekStartsOn then - 7 else 0) + 6 - (day - weekStartsOn);
          d1 = setDate tza d (getDate tza d + diff)
      in setHours tza d1 23 59 59 999)"

text \<open>The loop of \<open>eachDayOfInterval\<close>: collect the current day, step to the next midnight.\<close>

function eachDay_loop :: "int \<Rightarrow> int \<Rightarrow> int \<Rightarrow> int list" where
  "eachDay_loop tza currentDate endTime =
     (if currentDate \<le> endTime
      then currentDate
             # eachDay_loop tza
                 (setHours tza (setDate tza currentDate (getDate tza currentDate + 1)) 0 0 0 0)
                 endTime
      else [])"
  by pat_completeness auto
termination
proof (relation "measure (\<lambda>(tza, c, e). nat (e - c + 1))")
  show "wf (measure (\<lambda>(tza, c, e). nat (e - c + 1)))" by simp
next
  fix tza currentDate endTime :: int
  assume "currentDate \<le> endTime"
  then show "((tza, setHours tza (setDate tza currentDate (getDate tza currentDate + 1)) 0 0 0 0,
               endTime), (tza, currentDate, endTime))
             \<in> measure (\<lambda>(tza, c, e). nat (e - c + 1))"
    using next_day_later [of currentDate tza] by simp
qed

declare eachDay_loop.simps [simp del]

definition eachDayOfInterval :: "int \<Rightarrow> int \<Rightarrow> int \<Rightarrow> int list" where
  "eachDayOfInterval tza startDate endDate =
     (let reversed = (endDate < startDate);
          endTime = (if reversed then startDate else endDate);
          currentDate = setHours tza (if reversed then endDate else startDate) 0 0 0 0;
          dates = eachDay_loop tza currentDate endTime
      in if reversed then rev dates else dates)"

definition isWeekend :: "int \<Rightarrow> int \<Rightarrow> bool" where
  "isWeekend tza d = (let day = getDay tza d in day = 0 \<or> day = 6)"

section \<open>The hours of one entry\<close>

text \<open>JavaScript's \<open>!s\<close> on a string that may be missing: true when it is missing or empty.\<close>

definition falsy :: "string option \<Rightarrow> bool" where
  "falsy s = (case s of None \<Rightarrow> True | Some v \<Rightarrow> v = [])"

definition calculateHoursForLog :: "zone \<Rightarrow> LogEntry \<Rightarrow> number" where
  "calculateHoursForLog z entry =
     (if falsy (timeIn entry) \<or> falsy (timeOut entry) then Num 0
      else
        (let timeInDate = parse z (the (timeIn entry)) (new_Date (date entry));
             timeOutDate = parse z (the (timeOut entry)) (new_Date (date entry));
             diff = differenceInMinutes timeOutDate timeInDate
         in num_div (num_sub diff (Num (of_int (breakMinutes entry)))) (Num 60)))"

section \<open>Daily and weekly hours\<close>

text \<open>
  The first memo of the page. Its inputs are the log collection (absent while the
  collection is loading), the current time, the manually set weekly hours (absent when
  none are set) and the saved holiday hours, in a zone of constant offset \<open>tza\<close>. It
  returns the two totals; the call of
  \<open>setSavedHolidayHours\<close> inside it is made explicit as the third component, the saved
  holiday hours after the run.
\<close>

record hours_summary =
  dailyHours :: number
  weeklyHours :: number
  savedHolidayHours' :: number

text \<open>The body of the \<open>forEach\<close> over the days of the week, with the running total passed along.\<close>

definition week_step :: "int \<Rightarrow> LogEntry list \<Rightarrow> number \<Rightarrow> int \<Rightarrow> number" where
  "week_step tza logs weekly day =
     (if isWeekend tza day then weekly
      else
        (let dayStr = format_yyyy_MM_dd tza day;
             logForDay = find (\<lambda>entry. date entry = dayStr) logs
         in case logForDay of
              Some entry \<Rightarrow> num_add weekly (calculateHoursForLog (fixed_zone tza) entry)
            | None \<Rightarrow> weekly))"

definition aggregate ::
  "int \<Rightarrow> LogEntry list option \<Rightarrow> int \<Rightarrow> number option \<Rightarrow> number \<Rightarrow> hours_summary" where
  "aggregate tza logs today manualWeeklyHours savedHolidayHours =
     (let todayStr = format_yyyy_MM_dd tza today
      in case logs of
           None \<Rightarrow>
             \<lparr>dailyHours = Num 0, weeklyHours = Num 0, savedHolidayHours' = savedHolidayHours\<rparr>
         | Some ls \<Rightarrow>
             (let todayLog = find (\<lambda>entry. date entry = todayStr) ls;
                  daily = (case todayLog of
                             Some entry \<Rightarrow> calculateHoursForLog (fixed_zone tza) entry
                           | None \<Rightarrow> Num 0)
              in case manualWeeklyHours of
                   Some manual \<Rightarrow>
                     \<lparr>dailyHours = daily, weeklyHours = manual,
                      savedHolidayHours' = savedHolidayHours\<rparr>
                 | None \<Rightarrow>
                     (let weekStart = startOfWeek tza 1 today;
                          weekEnd = endOfWeek tza 1 today;
                          daysInWeek = eachDayOfInterval tza weekStart weekEnd;
                          weekly = foldl (week_step tza ls) (Num 0) daysInWeek;
                          saved = (if length ls = 0 \<and> num_gt savedHolidayHours (Num 0)
                                   then Num 0 else savedHolidayHours);
                          finalWeeklyHours =
                            (if length ls > 0 then num_add weekly savedHolidayHours else Num 0)
                      in \<lparr>dailyHours = daily, weeklyHours = toFixed2 finalWeeklyHours,
                          savedHolidayHours' = saved\<rparr>)))"

section \<open>The filtered and sorted list\<close>

text \<open>
  The second memo of the page: the visible entries, and the years and months for the
  filter menus. Formatting an invalid date makes date-fns throw a \<open>RangeError\<close>, which
  ends the memo; the result is therefore an error or the three lists.
\<close>

datatype error = RangeError

text \<open>\<open>format(d, pattern)\<close> on a date that may be invalid; the pattern is one of the printers above.\<close>

definition format :: "int \<Rightarrow> Date \<Rightarrow> (int \<Rightarrow> int \<Rightarrow> string) \<Rightarrow> error + string" where
  "format tza d pattern = (case d of None \<Rightarrow> Inl RangeError | Some t \<Rightarrow> Inr (pattern tza t))"

text \<open>A \<open>Set\<close> of strings in insertion order, as \<open>Array.from\<close> lists it.\<close>

definition Set_add :: "string \<Rightarrow> string list \<Rightarrow> string list" where
  "Set_add x s = (if x \<in> set s then s else s @ [x])"

text \<open>The first \<open>forEach\<close>: the year and the month of every entry go into the two sets.\<close>

fun collect_years_months ::
  "int \<Rightarrow> LogEntry list \<Rightarrow> string list \<Rightarrow> string list \<Rightarrow> error + (string list \<times> string list)" where
  "collect_years_months tza [] years months = Inr (years, months)"
| "collect_years_months tza (entry # rest) years months =
     (let logDate = parseISO tza (date entry)
      in case format tza logDate format_yyyy of
           Inl err \<Rightarrow> Inl err
         | Inr y \<Rightarrow>
             (case format tza logDate format_MM of
                Inl err \<Rightarrow> Inl err
              | Inr m \<Rightarrow> collect_years_months tza rest (Set_add y years) (Set_add m months)))"

text \<open>The four filter fields; the empty string is an unset filter.\<close>

record filters =
  filterYear :: string
  filterMonth :: string
  filterStartDate :: string
  filterEndDate :: string

text \<open>
  The callback of \<open>logs.filter\<close>. A \<open>format\<close> is only evaluated when its filter is set.
  The two date bounds compare the strings themselves.
\<close>

definition keep_log :: "int \<Rightarrow> filters \<Rightarrow> LogEntry \<Rightarrow> error + bool" where
  "keep_log tza f entry =
     (let logDate = parseISO tza (date entry)
      in case (if filterYear f \<noteq> [] then format tza logDate format_yyyy else Inr [])
         of Inl err \<Rightarrow> Inl err
          | Inr y \<Rightarrow>
              if filterYear f \<noteq> [] \<and> y \<noteq> filterYear f then Inr False
              else
                (case (if filterMonth f \<noteq> [] then format tza logDate format_MM else Inr [])
                 of Inl err \<Rightarrow> Inl err
                  | Inr m \<Rightarrow>
                      if filterMonth f \<noteq> [] \<and> m \<noteq> filterMonth f then Inr False
                      else if filterStartDate f \<noteq> [] \<and> date entry < filterStartDate f
                        then Inr False
                      else if filterEndDate f \<noteq> [] \<and> filterEndDate f < date entry
                        then Inr False
                      else Inr True))"

fun filter_logs :: "int \<Rightarrow> filters \<Rightarrow> LogEntry list \<Rightarrow> error + LogEntry list" where
  "filter_logs tza f [] = Inr []"
| "filter_logs tza f (entry # rest) =
     (case keep_log tza f entry of
        Inl err \<Rightarrow> Inl err
      | Inr keep \<Rightarrow>
          (case filter_logs tza f rest of
             Inl err \<Rightarrow> Inl err
           | Inr kept \<Rightarrow> Inr (if keep then entry # kept else kept)))"

text \<open>
  \<open>Array.prototype.sort\<close> with a comparator. The sort is stable, and a comparator result
  that is not above 0 (also \<open>NaN\<close>) leaves the earlier element first. For a consistent
  comparator every stable sort gives the same list; it is modelled by insertion from the
  right.
\<close>

fun insert_by :: "('a \<Rightarrow> 'a \<Rightarrow> number) \<Rightarrow> 'a \<Rightarrow> 'a list \<Rightarrow> 'a list" where
  "insert_by cmp x [] = [x]"
| "insert_by cmp x (y # ys) =
     (if num_gt (cmp x y) (Num 0) then y # insert_by cmp x ys else x # y # ys)"

definition sort_by :: "('a \<Rightarrow> 'a \<Rightarrow> number) \<Rightarrow> 'a list \<Rightarrow> 'a list" where
  "sort_by cmp xs = foldr (insert_by cmp) xs []"

text \<open>\<open>d.getTime()\<close>: the time value, \<open>NaN\<close> for an invalid date.\<close>

definition getTime :: "Date \<Rightarrow> number" where
  "getTime d = (case d of None \<Rightarrow> NaN | Some t \<Rightarrow> Num (of_int t))"

text \<open>
  \<open>a.localeCompare(b)\<close>, modelled as the comparison of the strings character by
  character. The page applies it to years, months and dates, which are digits and
  hyphens at fixed places; there the collation of a locale agrees with this order.
\<close>

definition localeCompare :: "string \<Rightarrow> string \<Rightarrow> number" where
  "localeCompare a b = (if a < b then Num (- 1) else if a = b then Num 0 else Num 1)"

datatype sortOrder = Asc | Desc

definition compare_logs :: "sortOrder \<Rightarrow> LogEntry \<Rightarrow> LogEntry \<Rightarrow> number" where
  "compare_logs order a b =
     (let dateA = getTime (new_Date (date a));
          dateB = getTime (new_Date (date b))
      in if order = Asc then num_sub dateA dateB else localeCompare (date b) (date a))"

record view_result =
  filteredAndSortedLogs :: "LogEntry list"
  availableYears :: "string list"
  availableMonths :: "string list"

definition view ::
  "int \<Rightarrow> LogEntry list option \<Rightarrow> sortOrder \<Rightarrow> filters \<Rightarrow> error + view_result" where
  "view tza logs order f =
     (case logs of
        None \<Rightarrow>
          Inr \<lparr>filteredAndSortedLogs = [], availableYears = [], availableMonths = []\<rparr>
      | Some ls \<Rightarrow>
          (case collect_years_months tza ls [] [] of
             Inl err \<Rightarrow> Inl err
           | Inr (years, months) \<Rightarrow>
               (case filter_logs tza f ls of
                  Inl err \<Rightarrow> Inl err
                | Inr filtered \<Rightarrow>
                    Inr \<lparr>filteredAndSortedLogs = sort_by (compare_logs order) filtered,
                         availableYears = sort_by (\<lambda>a b. localeCompare b a) years,
                         availableMonths = sort_by (\<lambda>a b. localeCompare a b) months\<rparr>)))"

section \<open>Specification-side definitions\<close>

text \<open>
  The definitions of this section do not model code. They state, in the words of the
  specification, what the results of the page are compared with.
\<close>

text \<open>
  A date string of the data model: \<open>yyyy-MM-dd\<close>, naming a day of the calendar in a year
  from 0001 to 9999.
\<close>

definition valid_date :: "string \<Rightarrow> bool" where
  "valid_date s = (case parse_ymd s of None \<Rightarrow> False | Some (y, m, d) \<Rightarrow> 1 \<le> y)"

text \<open>
  Days are numbered from 1970-01-01, a Thursday, so day \<open>d\<close> lies \<open>(d + 3) mod 7\<close> days
  after the Monday of its week. \<open>day_start\<close> is the local midnight of a day,
  \<open>iso_week_weekdays\<close> are the local midnights of Monday to Friday of the week of
  \<open>today\<close>, and \<open>hours_on_day\<close> is the hours of the first entry whose date is the given
  day, or 0 when there is none.
\<close>

definition iso_week_monday :: "int \<Rightarrow> int" where
  "iso_week_monday d = d - (d + 3) mod 7"

definition day_start :: "int \<Rightarrow> int \<Rightarrow> int" where
  "day_start tza d = d * msPerDay - tza"

definition iso_week_weekdays :: "int \<Rightarrow> int \<Rightarrow> int list" where
  "iso_week_weekdays tza today =
     map (\<lambda>i. day_start tza (iso_week_monday (Day (LocalTime tza today)) + i)) [0, 1, 2, 3, 4]"

definition hours_on_day :: "int \<Rightarrow> LogEntry list \<Rightarrow> int \<Rightarrow> number" where
  "hours_on_day tza logs day =
     (case find (\<lambda>entry. date entry = format_yyyy_MM_dd tza day) logs of
        None \<Rightarrow> Num 0
      | Some entry \<Rightarrow> calculateHoursForLog (fixed_zone tza) entry)"

text \<open>
  The weekly sum read entry by entry: the hours of every entry of the collection whose
  date is one of the five weekdays of the week of \<open>today\<close>, added up in collection order.
\<close>

definition hours_of_weekday_entries :: "int \<Rightarrow> LogEntry list \<Rightarrow> int \<Rightarrow> number" where
  "hours_of_weekday_entries tza logs today =
     num_sum (map (calculateHoursForLog (fixed_zone tza))
       (filter (\<lambda>entry. date entry \<in> set (map (format_yyyy_MM_dd tza) (iso_week_weekdays tza today)))
          logs))"


text \<open>
  The minutes after midnight that an \<open>HH:mm\<close> clock time names: two digits of the hour,
  at most 23, a colon, and two digits of the minute, at most 59. Any other string names
  no clock time.
\<close>

fun clock_minutes :: "string \<Rightarrow> nat option" where
  "clock_minutes [h1, h2, c, m1, m2] =
     (if is_digit h1 \<and> is_digit h2 \<and> c = CHR '':'' \<and> is_digit m1 \<and> is_digit m2
         \<and> 10 * digit_val h1 + digit_val h2 \<le> 23 \<and> 10 * digit_val m1 + digit_val m2 \<le> 59
      then Some ((10 * digit_val h1 + digit_val h2) * 60 + (10 * digit_val m1 + digit_val m2))
      else None)"
| "clock_minutes _ = None"

text \<open>
  The offset of a zone is steady on day \<open>d\<close> of local time when every local time of that
  day is read under the same offset \<open>c\<close>, and \<open>c\<close> is also the offset in force at the UTC
  time so obtained: no daylight-saving change touches the day.
\<close>

definition offset_steady_on_day :: "zone \<Rightarrow> int \<Rightarrow> int \<Rightarrow> bool" where
  "offset_steady_on_day z d c =
     (\<forall>L. Day L = d \<longrightarrow> offsetAtLocal z L = c \<and> offsetAtUTC z (L - c) = c)"

text \<open>
  An example of a zone with daylight saving: Central European time in the year 2024.
  The offset is one hour, and two hours from 2024-03-31 01:00 UTC (1711846800000) until
  2024-10-27 01:00 UTC (1729990800000). In local time the clock jumps from 02:00 to
  03:00 on 31 March and goes back from 03:00 to 02:00 on 27 October; the skipped and
  the repeated hour are read under the offset before the change.
\<close>

definition central_europe_2024 :: zone where
  "central_europe_2024 =
     \<lparr>offsetAtUTC = (\<lambda>t. if 1711846800000 \<le> t \<and> t < 1729990800000 then 7200000 else 3600000),
      offsetAtLocal = (\<lambda>L. if 1711854000000 \<le> L \<and> L < 1729998000000 then 7200000 else 3600000)\<rparr>"

text \<open>
  The filter condition in the specification's words: every set filter must hold. The
  year is the first four characters of the date, the month the two after the first
  hyphen, and the two bounds compare the date strings.
\<close>

definition matches :: "filters \<Rightarrow> LogEntry \<Rightarrow> bool" where
  "matches f entry =
     ((filterYear f = [] \<or> take 4 (date entry) = filterYear f)
      \<and> (filterMonth f = [] \<or> take 2 (drop 5 (date entry)) = filterMonth f)
      \<and> (filterStartDate f = [] \<or> filterStartDate f \<le> date entry)
      \<and> (filterEndDate f = [] \<or> date entry \<le> filterEndDate f))"

definition no_filters :: filters where
  "no_filters = \<lparr>filterYear = [], filterMonth = [], filterStartDate = [], filterEndDate = []\<rparr>"

section \<open>Lemmas about the calendar\<close>

lemma DayFromYear_strict_mono:
  assumes "y < y'"
  shows "DayFromYear y < DayFromYear y'"
proof -
  have "0 < n \<Longrightarrow> DayFromYear y < DayFromYear (y + int n)" for n
  proof (induction n)
    case 0
    then show ?case by simp
  next
    case (Suc n)
    have "y + int (Suc n) = y + int n + 1" by simp
    then have s: "DayFromYear (y + int (Suc n)) = DayFromYear (y + int n) + DaysInYear (y + int n)"
      by (simp only: DayFromYear_next)
    show ?case
    proof (cases "n = 0")
      case True
      then show ?thesis using s DaysInYear_bounds(1) [of y] by simp
    next
      case False
      then show ?thesis using Suc.IH s DaysInYear_bounds(1) [of "y + int n"] by simp
    qed
  qed
  from this [of "nat (y' - y)"] assms show ?thesis by simp
qed

lemma DayFromYear_mono: "y \<le> y' \<Longrightarrow> DayFromYear y \<le> DayFromYear y'"
  using DayFromYear_strict_mono [of y y'] by (cases "y = y'") simp_all

lemma DayFromYear_lower:
  assumes "1970 \<le> y"
  shows "365 * (y - 1970) \<le> DayFromYear y"
proof -
  have "365 * int n \<le> DayFromYear (1970 + int n)" for n
  proof (induction n)
    case 0
    show ?case by (simp add: DayFromYear_def)
  next
    case (Suc n)
    have "1970 + int (Suc n) = 1970 + int n + 1" by simp
    then have "DayFromYear (1970 + int (Suc n)) = DayFromYear (1970 + int n) + DaysInYear (1970 + int n)"
      by (simp only: DayFromYear_next)
    then show ?case using Suc.IH DaysInYear_bounds(1) [of "1970 + int n"] by simp
  qed
  from this [of "nat (y - 1970)"] assms show ?thesis by simp
qed

lemma year_down_correct:
  "d < DayFromYear (y + 1) \<Longrightarrow>
   DayFromYear (year_down y d) \<le> d \<and> d < DayFromYear (year_down y d + 1)"
proof (induction y d rule: year_down.induct)
  case (1 y d)
  show ?case
  proof (cases "DayFromYear y \<le> d")
    case True
    then show ?thesis using "1.prems" by (subst (1 2) year_down.simps) simp
  next
    case False
    then have "d < DayFromYear (y - 1 + 1)" by simp
    from "1.IH" [OF False this] False show ?thesis by (subst (1 2) year_down.simps) simp
  qed
qed

lemma YearFromTime_bounds:
  "DayFromYear (YearFromTime t) \<le> Day t" "Day t < DayFromYear (YearFromTime t + 1)"
proof -
  define d where "d = Day t"
  define y0 where "y0 = (if d < 0 then 1969 else 1970 + d div 365)"
  have "d < DayFromYear (y0 + 1)"
  proof (cases "d < 0")
    case True
    then show ?thesis by (simp add: y0_def DayFromYear_def)
  next
    case False
    then have "0 \<le> d div 365" by (simp add: pos_imp_zdiv_nonneg_iff)
    then have "365 * (d div 365 + 1) \<le> DayFromYear (1971 + d div 365)"
      using DayFromYear_lower [of "1971 + d div 365"] by simp
    moreover have "d < 365 * (d div 365 + 1)"
      using div_mult_mod_eq [of d 365] pos_mod_bound [of 365 d] by (simp add: algebra_simps)
    ultimately show ?thesis using False by (simp add: y0_def add.commute)
  qed
  then have "DayFromYear (year_down y0 d) \<le> d \<and> d < DayFromYear (year_down y0 d + 1)"
    by (rule year_down_correct)
  moreover have "YearFromTime t = year_down y0 d"
    by (simp add: YearFromTime_def d_def y0_def)
  ultimately show "DayFromYear (YearFromTime t) \<le> Day t" "Day t < DayFromYear (YearFromTime t + 1)"
    by (simp_all add: d_def)
qed

lemma YearFromTime_unique:
  assumes "DayFromYear y \<le> Day t" "Day t < DayFromYear (y + 1)"
  shows "YearFromTime t = y"
proof (rule ccontr)
  assume ne: "YearFromTime t \<noteq> y"
  define z where "z = YearFromTime t"
  have z: "DayFromYear z \<le> Day t" "Day t < DayFromYear (z + 1)"
    using YearFromTime_bounds [of t] by (simp_all add: z_def)
  show False
  proof (cases "z < y")
    case True
    then have "DayFromYear (z + 1) \<le> DayFromYear y" by (intro DayFromYear_mono) simp
    then show False using z assms by simp
  next
    case False
    then have "y < z" using ne by (simp add: z_def)
    then have "DayFromYear (y + 1) \<le> DayFromYear z" by (intro DayFromYear_mono) simp
    then show False using z assms by simp
  qed
qed

lemma month_cases:
  fixes m :: int
  assumes "1 \<le> m" "m \<le> 12"
  shows "m = 1 \<or> m = 2 \<or> m = 3 \<or> m = 4 \<or> m = 5 \<or> m = 6 \<or> m = 7 \<or> m = 8 \<or> m = 9
         \<or> m = 10 \<or> m = 11 \<or> m = 12"
  using assms by arith

text \<open>Facts about one month, with the leap flag \<open>l\<close> and the month's length \<open>n\<close> abstract.\<close>

lemma month_window:
  fixes m d l :: int
  assumes m: "1 \<le> m" "m \<le> 12" and d: "1 \<le> d" "d \<le> n" and l: "l = 0 \<or> l = 1"
    and n: "n = (if m = 2 then 28 + l else if m = 4 \<or> m = 6 \<or> m = 9 \<or> m = 11 then 30 else 31)"
  shows "0 \<le> MonthStart l (m - 1) + d - 1"
    and "MonthStart l (m - 1) + d - 1 < 365 + l"
    and "(let x = MonthStart l (m - 1) + d - 1
          in if x < 31 then 0
             else if x < 59 + l then 1
             else if x < 90 + l then 2
             else if x < 120 + l then 3
             else if x < 151 + l then 4
             else if x < 181 + l then 5
             else if x < 212 + l then 6
             else if x < 243 + l then 7
             else if x < 273 + l then 8
             else if x < 304 + l then 9
             else if x < 334 + l then 10
             else 11) = m - 1"
proof -
  consider "m = 1" | "m = 2" | "m = 3" | "m = 4" | "m = 5" | "m = 6" | "m = 7" | "m = 8"
    | "m = 9" | "m = 10" | "m = 11" | "m = 12"
    using month_cases [OF m] by blast
  then have "0 \<le> MonthStart l (m - 1) + d - 1 \<and> MonthStart l (m - 1) + d - 1 < 365 + l
    \<and> (let x = MonthStart l (m - 1) + d - 1
          in if x < 31 then 0
             else if x < 59 + l then 1
             else if x < 90 + l then 2
             else if x < 120 + l then 3
             else if x < 151 + l then 4
             else if x < 181 + l then 5
             else if x < 212 + l then 6
             else if x < 243 + l then 7
             else if x < 273 + l then 8
             else if x < 304 + l then 9
             else if x < 334 + l then 10
             else 11) = m - 1"
  proof cases
    case 1 then show ?thesis using d n l by (auto simp add: MonthStart_def Let_def)
  next
    case 2 then show ?thesis using d n l by (auto simp add: MonthStart_def Let_def)
  next
    case 3 then show ?thesis using d n l by (auto simp add: MonthStart_def Let_def)
  next
    case 4 then show ?thesis using d n l by (auto simp add: MonthStart_def Let_def)
  next
    case 5 then show ?thesis using d n l by (auto simp add: MonthStart_def Let_def)
  next
    case 6 then show ?thesis using d n l by (auto simp add: MonthStart_def Let_def)
  next
    case 7 then show ?thesis using d n l by (auto simp add: MonthStart_def Let_def)
  next
    case 8 then show ?thesis using d n l by (auto simp add: MonthStart_def Let_def)
  next
    case 9 then show ?thesis using d n l by (auto simp add: MonthStart_def Let_def)
  next
    case 10 then show ?thesis using d n l by (auto simp add: MonthStart_def Let_def)
  next
    case 11 then show ?thesis using d n l by (auto simp add: MonthStart_def Let_def)
  next
    case 12 then show ?thesis using d n l by (auto simp add: MonthStart_def Let_def)
  qed
  then show "0 \<le> MonthStart l (m - 1) + d - 1"
    and "MonthStart l (m - 1) + d - 1 < 365 + l"
    and "(let x = MonthStart l (m - 1) + d - 1
          in if x < 31 then 0
             else if x < 59 + l then 1
             else if x < 90 + l then 2
             else if x < 120 + l then 3
             else if x < 151 + l then 4
             else if x < 181 + l then 5
             else if x < 212 + l then 6
             else if x < 243 + l then 7
             else if x < 273 + l then 8
             else if x < 304 + l then 9
             else if x < 334 + l then 10
             else 11) = m - 1"
    by blast+
qed


lemma civil_of_MakeDay:
  assumes "1 \<le> m" "m \<le> 12" "1 \<le> d" "d \<le> DaysInMonth y m"
    and "Day t = MakeDay y (m - 1) d"
  shows "YearFromTime t = y" "MonthFromTime t = m - 1" "DateFromTime t = d"
proof -
  define l :: int where "l = (if DaysInYear y = 366 then 1 else 0)"
  have l01: "l = 0 \<or> l = 1" by (simp add: l_def)
  have dy: "DaysInYear y = 365 + l" by (simp add: l_def DaysInYear_def)
  have n: "DaysInMonth y m
      = (if m = 2 then 28 + l else if m = 4 \<or> m = 6 \<or> m = 9 \<or> m = 11 then 30 else 31)"
    by (simp add: DaysInMonth_def l_def)
  note w = month_window [OF assms(1-4) l01 n]
  have dt: "Day t = DayFromYear y + (MonthStart l (m - 1) + d - 1)"
    using assms(5) by (simp add: MakeDay_def l_def)
  show y: "YearFromTime t = y"
    by (rule YearFromTime_unique) (use w(1,2) dt dy DayFromYear_next [of y] in simp_all)
  have leap: "InLeapYear t = l" by (simp add: InLeapYear_def y l_def)
  have doy: "DayWithinYear t = MonthStart l (m - 1) + d - 1"
    by (simp add: DayWithinYear_def y dt)
  show mo: "MonthFromTime t = m - 1"
    using w(3) unfolding MonthFromTime_def doy leap by (simp only: Let_def)
  show "DateFromTime t = d"
    by (simp add: DateFromTime_def doy leap mo)
qed

lemma MonthStart_next:
  fixes m l :: int
  assumes "1 \<le> m" "m \<le> 11" "l = 0 \<or> l = 1"
    and "n = (if m = 2 then 28 + l else if m = 4 \<or> m = 6 \<or> m = 9 \<or> m = 11 then 30 else 31)"
  shows "MonthStart l (m - 1) + n = MonthStart l m"
proof -
  have "m = 1 \<or> m = 2 \<or> m = 3 \<or> m = 4 \<or> m = 5 \<or> m = 6 \<or> m = 7 \<or> m = 8 \<or> m = 9
         \<or> m = 10 \<or> m = 11"
    using assms(1,2) by arith
  then show ?thesis using assms(3,4) by (elim disjE) (simp_all add: MonthStart_def)
qed

lemma MonthStart_mono:
  fixes j k l :: int
  assumes "0 \<le> j" "j \<le> k" "k \<le> 11" "l = 0 \<or> l = 1"
  shows "MonthStart l j \<le> MonthStart l k"
proof -
  have s: "MonthStart l i \<le> MonthStart l (i + 1)" if "0 \<le> i" "i \<le> 10" for i
  proof -
    have "i = 0 \<or> i = 1 \<or> i = 2 \<or> i = 3 \<or> i = 4 \<or> i = 5 \<or> i = 6 \<or> i = 7 \<or> i = 8 \<or> i = 9
        \<or> i = 10"
      using that by arith
    then show ?thesis using assms(4) by (elim disjE) (simp_all add: MonthStart_def)
  qed
  have "j + int n \<le> 11 \<Longrightarrow> MonthStart l j \<le> MonthStart l (j + int n)" for n
  proof (induction n)
    case 0
    show ?case by simp
  next
    case (Suc n)
    have st: "MonthStart l (j + int n) \<le> MonthStart l (j + int n + 1)"
      by (rule s) (use Suc.prems assms(1) in simp_all)
    have e: "j + int (Suc n) = j + int n + 1" by simp
    have ih: "MonthStart l j \<le> MonthStart l (j + int n)"
      by (rule Suc.IH) (use Suc.prems in simp)
    show ?case unfolding e using ih st by (rule order_trans)
  qed
  from this [of "nat (k - j)"] assms show ?thesis by simp
qed

lemma MakeDay_lex_mono:
  assumes a: "1 \<le> m" "m \<le> 12" "1 \<le> d" "d \<le> DaysInMonth y m"
    and b: "1 \<le> m'" "m' \<le> 12" "1 \<le> d'" "d' \<le> DaysInMonth y' m'"
    and lex: "y < y' \<or> (y = y' \<and> (m < m' \<or> (m = m' \<and> d < d')))"
  shows "MakeDay y (m - 1) d < MakeDay y' (m' - 1) d'"
proof -
  define l :: int where "l = (if DaysInYear y = 366 then 1 else 0)"
  define l' :: int where "l' = (if DaysInYear y' = 366 then 1 else 0)"
  have l01: "l = 0 \<or> l = 1" "l' = 0 \<or> l' = 1" by (simp_all add: l_def l'_def)
  have dy: "DaysInYear y = 365 + l" by (simp add: l_def DaysInYear_def)
  have n: "DaysInMonth y m
      = (if m = 2 then 28 + l else if m = 4 \<or> m = 6 \<or> m = 9 \<or> m = 11 then 30 else 31)"
    by (simp add: DaysInMonth_def l_def)
  have n': "DaysInMonth y' m'
      = (if m' = 2 then 28 + l' else if m' = 4 \<or> m' = 6 \<or> m' = 9 \<or> m' = 11 then 30 else 31)"
    by (simp add: DaysInMonth_def l'_def)
  note w = month_window [OF a l01(1) n]
  note w' = month_window [OF b l01(2) n']
  have e: "MakeDay y (m - 1) d = DayFromYear y + (MonthStart l (m - 1) + d - 1)"
    "MakeDay y' (m' - 1) d' = DayFromYear y' + (MonthStart l' (m' - 1) + d' - 1)"
    by (simp_all add: MakeDay_def l_def l'_def)
  consider "y < y'" | "y = y'" "m < m'" | "y = y'" "m = m'" "d < d'" using lex by blast
  then show ?thesis
  proof cases
    case 1
    have "MakeDay y (m - 1) d < DayFromYear (y + 1)"
      using w(2) by (simp add: e DayFromYear_next dy)
    also have "\<dots> \<le> DayFromYear y'" by (rule DayFromYear_mono) (use 1 in simp)
    also have "\<dots> \<le> MakeDay y' (m' - 1) d'" using w'(1) by (simp add: e)
    finally show ?thesis .
  next
    case 2
    then have ll: "l' = l" by (simp add: l_def l'_def)
    have "MonthStart l (m - 1) + d \<le> MonthStart l (m - 1) + DaysInMonth y m" using a(4) by simp
    also have "\<dots> = MonthStart l m"
      by (rule MonthStart_next [OF a(1) _ l01(1) n]) (use 2 b in simp)
    also have "\<dots> \<le> MonthStart l (m' - 1)"
      by (rule MonthStart_mono) (use 2 a b l01 in simp_all)
    finally have "MonthStart l (m - 1) + d \<le> MonthStart l (m' - 1)" .
    then have "DayFromYear y + (MonthStart l (m - 1) + d - 1)
        < DayFromYear y + (MonthStart l (m' - 1) + d' - 1)"
      using b(3) by simp
    moreover have "MakeDay y' (m' - 1) d' = DayFromYear y + (MonthStart l (m' - 1) + d' - 1)"
      using e(2) ll 2(1) by simp
    ultimately show ?thesis using e(1) by simp
  next
    case 3
    then show ?thesis by (simp add: MakeDay_def)
  qed
qed

section \<open>Lemmas about printing and reading\<close>

lemma is_digit_cases:
  assumes "is_digit c"
  obtains "c = CHR ''0''" | "c = CHR ''1''" | "c = CHR ''2''" | "c = CHR ''3''" | "c = CHR ''4''"
    | "c = CHR ''5''" | "c = CHR ''6''" | "c = CHR ''7''" | "c = CHR ''8''" | "c = CHR ''9''"
  using assms unfolding is_digit_def by auto

lemma digit_char_val: "is_digit c \<Longrightarrow> digit_char (digit_val c) = c"
  by (erule is_digit_cases) (simp_all add: digit_val_def digit_char_def)

lemma digit_val_less: "is_digit c \<Longrightarrow> digit_val c < 10"
  by (erule is_digit_cases) (simp_all add: digit_val_def)

lemma digits_val_snoc: "digits_val (ds @ [c]) = 10 * digits_val ds + digit_val c"
  by (simp add: digits_val_def)

lemma toString_nat_digit: "n < 10 \<Longrightarrow> toString_nat n = [digit_char n]"
  by (subst toString_nat.simps) simp

lemma toString_nat_more:
  "\<not> n < 10 \<Longrightarrow> toString_nat n = toString_nat (n div 10) @ [digit_char (n mod 10)]"
  by (subst toString_nat.simps) simp

lemma toString_digits:
  assumes "list_all is_digit ds" "ds \<noteq> []"
  shows "padStart (length ds) (CHR ''0'') (toString_nat (digits_val ds)) = ds
         \<and> length (toString_nat (digits_val ds)) \<le> length ds"
  using assms
proof (induction ds rule: rev_induct)
  case Nil
  then show ?case by simp
next
  case (snoc c ds)
  have c: "is_digit c" using snoc.prems by simp
  show ?case
  proof (cases "ds = []")
    case True
    then show ?thesis
      using c by (simp add: digits_val_def toString_nat_digit digit_val_less digit_char_val padStart_def)
  next
    case False
    have ih: "padStart (length ds) (CHR ''0'') (toString_nat (digits_val ds)) = ds"
      "length (toString_nat (digits_val ds)) \<le> length ds"
      using snoc.IH snoc.prems False by simp_all
    define n where "n = digits_val ds"
    have N: "digits_val (ds @ [c]) = 10 * n + digit_val c" by (simp add: digits_val_snoc n_def)
    show ?thesis
    proof (cases "n = 0")
      case True
      have "toString_nat (10 * n + digit_val c) = [c]"
        using True c by (simp add: toString_nat_digit digit_val_less digit_char_val)
      moreover have "ds = replicate (length ds - 1) (CHR ''0'') @ [CHR ''0'']"
        using ih(1) True
        by (simp add: n_def [symmetric] toString_nat_digit padStart_def digit_char_def)
      then have "replicate (length ds) (CHR ''0'') = ds"
        using False by (metis append_eq_conv_conj length_append_singleton length_replicate
            replicate_append_same replicate_Suc diff_Suc_1 append_Nil2 Suc_pred length_greater_0_conv)
      ultimately show ?thesis unfolding N by (simp add: padStart_def)
    next
      case False
      then have big: "\<not> 10 * n + digit_val c < 10" by simp
      have dm: "(10 * n + digit_val c) div 10 = n" "(10 * n + digit_val c) mod 10 = digit_val c"
        using digit_val_less [OF c] by simp_all
      have "toString_nat (10 * n + digit_val c) = toString_nat n @ [digit_char (digit_val c)]"
        unfolding toString_nat_more [OF big] dm ..
      then have "toString_nat (10 * n + digit_val c) = toString_nat n @ [c]"
        using c by (simp only: digit_char_val)
      then show ?thesis
        unfolding N using ih by (simp add: padStart_def n_def)
    qed
  qed
qed

lemma addLeadingZeros_digits:
  assumes "list_all is_digit ds" "ds \<noteq> []"
  shows "addLeadingZeros (int (digits_val ds)) (length ds) = ds"
  using toString_digits [OF assms] by (simp add: addLeadingZeros_def)

lemma parse_ymd_SomeE:
  assumes "parse_ymd s = Some (y, m, d)"
  obtains y1 y2 y3 y4 m1 m2 d1 d2 where
    "s = [y1, y2, y3, y4, CHR ''-'', m1, m2, CHR ''-'', d1, d2]"
    "list_all is_digit [y1, y2, y3, y4]" "list_all is_digit [m1, m2]" "list_all is_digit [d1, d2]"
    "y = int (digits_val [y1, y2, y3, y4])" "m = int (digits_val [m1, m2])"
    "d = int (digits_val [d1, d2])"
    "1 \<le> m" "m \<le> 12" "1 \<le> d" "d \<le> DaysInMonth y m"
  using assms
  by (cases s rule: parse_ymd.cases) (auto simp add: Let_def split: if_splits)

lemma Day_of_day_plus:
  assumes "0 \<le> x" "x < msPerDay"
  shows "Day (d * msPerDay + x) = d"
  unfolding Day_def using assms msPerDay_pos
  by (metis int_div_pos_eq mult.commute)

lemma parseISO_format:
  assumes "valid_date s"
  shows "\<exists>t. parseISO tza s = Some t \<and> format_yyyy tza t = take 4 s
             \<and> format_MM tza t = take 2 (drop 5 s)"
proof -
  from assms obtain y m d where p: "parse_ymd s = Some (y, m, d)" and y1: "1 \<le> y"
    by (auto simp add: valid_date_def split: option.splits)
  from p obtain y1 y2 y3 y4 m1 m2 d1 d2 where
    s: "s = [y1, y2, y3, y4, CHR ''-'', m1, m2, CHR ''-'', d1, d2]"
    and dg: "list_all is_digit [y1, y2, y3, y4]" "list_all is_digit [m1, m2]"
    and v: "y = int (digits_val [y1, y2, y3, y4])" "m = int (digits_val [m1, m2])"
    and b: "1 \<le> m" "m \<le> 12" "1 \<le> d" "d \<le> DaysInMonth y m"
    by (rule parse_ymd_SomeE)
  define t where "t = UTC tza (MakeDate (MakeDay y (m - 1) d) 0)"
  have pt: "parseISO tza s = Some t" by (simp add: parseISO_def p t_def)
  have "Day (LocalTime tza t) = MakeDay y (m - 1) d"
    using Day_of_day_plus [of 0 "MakeDay y (m - 1) d"] msPerDay_pos
    by (simp add: t_def LocalTime_def UTC_def MakeDate_def)
  note c = civil_of_MakeDay [OF b this]
  have "format_yyyy tza t = addLeadingZeros y 4"
    using y1 by (simp add: format_yyyy_def getFullYear_def c(1))
  also have "\<dots> = [y1, y2, y3, y4]"
    using addLeadingZeros_digits [OF dg(1)] by (simp add: v eval_nat_numeral)
  finally have fy: "format_yyyy tza t = take 4 s" by (simp add: s)
  have "format_MM tza t = addLeadingZeros m 2"
    by (simp add: format_MM_def getMonth_def c(2))
  also have "\<dots> = [m1, m2]"
    using addLeadingZeros_digits [OF dg(2)] by (simp add: v eval_nat_numeral)
  finally have fm: "format_MM tza t = take 2 (drop 5 s)" by (simp add: s)
  show ?thesis using pt fy fm by blast
qed

lemma digit_code: "is_digit c \<Longrightarrow> of_char c = 48 + digit_val c"
  by (erule is_digit_cases) (simp_all add: digit_val_def)
lemma digit_order:
  assumes "is_digit c" "is_digit c'"
  shows "(c < c') = (digit_val c < digit_val c')" "(c = c') = (digit_val c = digit_val c')"
proof -
  have 1: "of_char c = 48 + digit_val c" "of_char c' = 48 + digit_val c'"
    using assms by (simp_all add: digit_code)
  show "(c < c') = (digit_val c < digit_val c')"
    unfolding less_char_def 1 by simp
  have "(c = c') = (of_char c = (of_char c' :: nat))" by simp
  then show "(c = c') = (digit_val c = digit_val c')" unfolding 1 by simp
qed

lemma digits_val_foldl:
  "foldl (\<lambda>a c. 10 * a + digit_val c) a ds = a * 10 ^ length ds + digits_val ds"
proof -
  define f where "f = (\<lambda>(a::nat) c. 10 * a + digit_val c)"
  have "foldl f a ds = a * 10 ^ length ds + foldl f 0 ds" for a
  proof (induction ds arbitrary: a)
    case Nil
    show ?case by simp
  next
    case (Cons c ds)
    have 1: "foldl f (f a c) ds = f a c * 10 ^ length ds + foldl f 0 ds" by (rule Cons.IH)
    have 2: "foldl f (f 0 c) ds = f 0 c * 10 ^ length ds + foldl f 0 ds" by (rule Cons.IH)
    have 3: "f a c = 10 * a + digit_val c" "f 0 c = digit_val c" by (simp_all add: f_def)
    show ?case by (simp only: foldl_Cons 1 2) (simp add: 3 algebra_simps)
  qed
  from this [of a] show ?thesis unfolding digits_val_def f_def .
qed

lemma digits_val_Cons: "digits_val (c # ds) = digit_val c * 10 ^ length ds + digits_val ds"
  using digits_val_foldl [of "digit_val c" ds] by (simp add: digits_val_def)

lemma digits_val_bound: "list_all is_digit ds \<Longrightarrow> digits_val ds < 10 ^ length ds"
proof (induction ds)
  case Nil
  show ?case by (simp add: digits_val_def)
next
  case (Cons c ds)
  have c: "is_digit c" using Cons.prems by simp
  have "digit_val c * 10 ^ length ds + digits_val ds < digit_val c * 10 ^ length ds + 10 ^ length ds"
    using Cons by simp
  also have "\<dots> = (digit_val c + 1) * 10 ^ length ds" by simp
  also have "\<dots> \<le> 10 * 10 ^ length ds"
    using digit_val_less [OF c] by (intro mult_le_mono1) simp
  finally show ?case by (simp add: digits_val_Cons)
qed

lemma digits_order:
  assumes "length ds = length ds'" "list_all is_digit ds" "list_all is_digit ds'"
  shows "(ds < ds') = (digits_val ds < digits_val ds') \<and> (ds = ds') = (digits_val ds = digits_val ds')"
  using assms
proof (induction ds ds' rule: list_induct2)
  case Nil
  show ?case by simp
next
  case (Cons c ds c' ds')
  define P :: nat where "P = 10 ^ length ds"
  define v v' n n' where "v = digit_val c" and "v' = digit_val c'"
    and "n = digits_val ds" and "n' = digits_val ds'"
  have ih: "(ds < ds') = (n < n')" "(ds = ds') = (n = n')"
    using Cons by (simp_all add: n_def n'_def)
  have c: "(c < c') = (v < v')" "(c = c') = (v = v')"
    using digit_order [of c c'] Cons.prems by (simp_all add: v_def v'_def)
  have b: "n < P" "n' < P"
    using digits_val_bound [of ds] digits_val_bound [of ds'] Cons.hyps Cons.prems
    by (simp_all add: P_def n_def n'_def)
  have e: "digits_val (c # ds) = v * P + n" "digits_val (c' # ds') = v' * P + n'"
    using Cons.hyps by (simp_all add: digits_val_Cons P_def v_def v'_def n_def n'_def)
  have lt: "v * P + n < v' * P + n'" if "v < v'"
  proof -
    have "v * P + n < (v + 1) * P" using b by simp
    also have "\<dots> \<le> v' * P" using that by (intro mult_le_mono1) simp
    finally show ?thesis by simp
  qed
  have gt: "v' * P + n' < v * P + n" if "v' < v"
  proof -
    have "v' * P + n' < (v' + 1) * P" using b by simp
    also have "\<dots> \<le> v * P" using that by (intro mult_le_mono1) simp
    finally show ?thesis by simp
  qed
  have 1: "(v * P + n < v' * P + n') = (v < v' \<or> (v = v' \<and> n < n'))"
    using lt gt by (cases v v' rule: linorder_cases) auto
  have 2: "(v * P + n = v' * P + n') = (v = v' \<and> n = n')"
    using lt gt by (cases v v' rule: linorder_cases) auto
  show ?case unfolding e 1 2 by (simp add: c ih)
qed

lemma append_less_same_length:
  assumes "length xs = length ys"
  shows "(xs @ us < ys @ vs) = (xs < ys \<or> (xs = ys \<and> us < vs))"
  using assms by (induction xs ys rule: list_induct2) auto

lemma new_Date_order:
  assumes "parse_ymd a \<noteq> None" "parse_ymd b \<noteq> None"
  shows "\<exists>ta tb. new_Date a = Some ta \<and> new_Date b = Some tb
           \<and> (ta < tb) = (a < b) \<and> (ta = tb) = (a = b)"
proof -
  from assms obtain y m d y' m' d' where
    pa: "parse_ymd a = Some (y, m, d)" and pb: "parse_ymd b = Some (y', m', d')"
    by auto
  from pa obtain y1 y2 y3 y4 m1 m2 d1 d2 where
    a: "a = [y1, y2, y3, y4, CHR ''-'', m1, m2, CHR ''-'', d1, d2]"
    and da: "list_all is_digit [y1, y2, y3, y4]" "list_all is_digit [m1, m2]"
      "list_all is_digit [d1, d2]"
    and va: "y = int (digits_val [y1, y2, y3, y4])" "m = int (digits_val [m1, m2])"
      "d = int (digits_val [d1, d2])"
    and ba: "1 \<le> m" "m \<le> 12" "1 \<le> d" "d \<le> DaysInMonth y m"
    by (rule parse_ymd_SomeE)
  from pb obtain z1 z2 z3 z4 n1 n2 e1 e2 where
    b: "b = [z1, z2, z3, z4, CHR ''-'', n1, n2, CHR ''-'', e1, e2]"
    and db: "list_all is_digit [z1, z2, z3, z4]" "list_all is_digit [n1, n2]"
      "list_all is_digit [e1, e2]"
    and vb: "y' = int (digits_val [z1, z2, z3, z4])" "m' = int (digits_val [n1, n2])"
      "d' = int (digits_val [e1, e2])"
    and bb: "1 \<le> m'" "m' \<le> 12" "1 \<le> d'" "d' \<le> DaysInMonth y' m'"
    by (rule parse_ymd_SomeE)
  define lt where "lt = (y < y' \<or> (y = y' \<and> (m < m' \<or> (m = m' \<and> d < d'))))"
  define gt where "gt = (y' < y \<or> (y' = y \<and> (m' < m \<or> (m' = m \<and> d' < d))))"
  define eq where "eq = (y = y' \<and> m = m' \<and> d = d')"
  have oy: "([y1, y2, y3, y4] < [z1, z2, z3, z4]) = (y < y')"
    "([y1, y2, y3, y4] = [z1, z2, z3, z4]) = (y = y')"
    using digits_order [OF _ da(1) db(1)] by (simp_all add: va vb)
  have om: "([m1, m2] < [n1, n2]) = (m < m')" "([m1, m2] = [n1, n2]) = (m = m')"
    using digits_order [OF _ da(2) db(2)] by (simp_all add: va vb)
  have od: "([d1, d2] < [e1, e2]) = (d < d')" "([d1, d2] = [e1, e2]) = (d = d')"
    using digits_order [OF _ da(3) db(3)] by (simp_all add: va vb)
  have sa: "a = [y1, y2, y3, y4] @ CHR ''-'' # [m1, m2] @ CHR ''-'' # [d1, d2]" by (simp add: a)
  have sb: "b = [z1, z2, z3, z4] @ CHR ''-'' # [n1, n2] @ CHR ''-'' # [e1, e2]" by (simp add: b)
  have hy: "(CHR ''-'' # u < CHR ''-'' # v) = (u < v)" for u v :: string by simp
  have 1: "(a < b) = ([y1, y2, y3, y4] < [z1, z2, z3, z4] \<or> ([y1, y2, y3, y4] = [z1, z2, z3, z4]
      \<and> CHR ''-'' # [m1, m2] @ CHR ''-'' # [d1, d2] < CHR ''-'' # [n1, n2] @ CHR ''-'' # [e1, e2]))"
    unfolding sa sb by (rule append_less_same_length) simp
  have 2: "([m1, m2] @ CHR ''-'' # [d1, d2] < [n1, n2] @ CHR ''-'' # [e1, e2])
      = ([m1, m2] < [n1, n2] \<or> ([m1, m2] = [n1, n2] \<and> CHR ''-'' # [d1, d2] < CHR ''-'' # [e1, e2]))"
    by (rule append_less_same_length) simp
  have slt: "(a < b) = lt"
    unfolding 1 hy 2 oy om od lt_def ..
  have seq: "(a = b) = eq"
    using oy(2) om(2) od(2) unfolding a b eq_def by auto
  define day day' where "day = MakeDay y (m - 1) d" and "day' = MakeDay y' (m' - 1) d'"
  have f: "lt \<Longrightarrow> day < day'"
    unfolding lt_def day_def day'_def by (rule MakeDay_lex_mono [OF ba bb])
  have g: "gt \<Longrightarrow> day' < day"
    unfolding gt_def day_def day'_def by (rule MakeDay_lex_mono [OF bb ba])
  have e: "eq \<Longrightarrow> day = day'" by (simp add: eq_def day_def day'_def)
  have tri: "lt \<or> eq \<or> gt" unfolding lt_def eq_def gt_def by linarith
  have ex: "\<not> (lt \<and> eq)" "\<not> (lt \<and> gt)" "\<not> (eq \<and> gt)"
    unfolding lt_def eq_def gt_def by linarith+
  have dlt: "(day < day') = lt" using f g e tri ex by (metis less_irrefl less_asym)
  have deq: "(day = day') = eq" using f g e tri ex by (metis less_irrefl)
  have na: "new_Date a = Some (day * msPerDay)" by (simp add: new_Date_def pa MakeDate_def day_def)
  have nb: "new_Date b = Some (day' * msPerDay)" by (simp add: new_Date_def pb MakeDate_def day'_def)
  have "(day * msPerDay < day' * msPerDay) = (a < b)"
    using msPerDay_pos by (simp add: slt dlt)
  moreover have "(day * msPerDay = day' * msPerDay) = (a = b)"
    using msPerDay_pos by (simp add: seq deq)
  ultimately show ?thesis using na nb by blast
qed

section \<open>Rules for evaluating the model on concrete inputs\<close>

lemma year_down_stop: "DayFromYear y \<le> d \<Longrightarrow> year_down y d = y"
  by (subst year_down.simps) simp

lemma year_down_step: "\<not> DayFromYear y \<le> d \<Longrightarrow> year_down y d = year_down (y - 1) d"
  by (subst year_down.simps) simp

lemma floor_rat_numeral: "\<lfloor>(numeral a :: rat) / numeral b\<rfloor> = numeral a div numeral b"
  using floor_divide_of_int_eq [of "numeral a" "numeral b", where ?'a = rat] by simp

lemmas calendar_eval =
  getFullYear_def getMonth_def getDate_def getDay_def WeekDay_def LocalTime_def UTC_def
  YearFromTime_def Day_def TimeWithinDay_def msPerDay_def year_down_stop year_down_step
  DayFromYear_def MonthFromTime_def DateFromTime_def DayWithinYear_def InLeapYear_def
  DaysInYear_def MonthStart_def MakeDay_def MakeDate_def MakeTime_def HourFromTime_def

lemmas format_eval =
  format_yyyy_MM_dd_def format_yyyy_def format_MM_def format_dd_def addLeadingZeros_def
  padStart_def toString_nat_digit toString_nat_more digit_char_def

lemmas parse_eval =
  new_Date_def parseISO_def valid_date_def is_digit_def digits_val_def digit_val_def
  DaysInMonth_def parse_def parse_HHmm_def is_space_def setHours_def setHours_in_def
  setMinutes_in_def LocalTime_in_def UTC_in_def fixed_zone_def

lemmas hours_eval =
  calculateHoursForLog_def falsy_def differenceInMinutes_def trunc_div_def

section \<open>Properties of the hours of one entry\<close>

text \<open>
  C9. An entry whose time-in or time-out is missing or the empty string has 0 hours,
  whatever its date, its break and the time zone are; the result is the number 0, not an error and not \<open>NaN\<close>.
\<close>

theorem hours_zero_when_time_missing:
  assumes "timeIn entry = None \<or> timeIn entry = Some [] \<or> timeOut entry = None
           \<or> timeOut entry = Some []"
  shows "calculateHoursForLog z entry = Num 0"
  using assms by (auto simp add: calculateHoursForLog_def falsy_def)

theorem hours_zero_when_time_missing_witness:
  "calculateHoursForLog (fixed_zone 0) \<lparr>logId = None, date = ''2024-01-01'', timeIn = Some [],
      timeOut = Some ''17:00'', breakMinutes = 15, createdAt = None, updatedAt = None\<rparr> = Num 0
   \<and> calculateHoursForLog (fixed_zone 0) \<lparr>logId = None, date = ''not a date'', timeIn = Some ''09:00'',
      timeOut = None, breakMinutes = 15, createdAt = None, updatedAt = None\<rparr> = Num 0"
  by (intro conjI hours_zero_when_time_missing) simp_all

lemma clock_minutes_parse:
  assumes "clock_minutes s = Some n"
  shows "\<exists>h m. parse_HHmm s = Some (h, m) \<and> h \<le> 23 \<and> m \<le> 59 \<and> n = h * 60 + m"
proof -
  from assms obtain h1 h2 c m1 m2 where s: "s = [h1, h2, c, m1, m2]"
    by (cases s rule: clock_minutes.cases) simp_all
  from assms have d: "is_digit h1" "is_digit h2" "c = CHR '':''" "is_digit m1" "is_digit m2"
    and b: "10 * digit_val h1 + digit_val h2 \<le> 23" "10 * digit_val m1 + digit_val m2 \<le> 59"
    and n: "n = (10 * digit_val h1 + digit_val h2) * 60 + (10 * digit_val m1 + digit_val m2)"
    unfolding s by (simp_all split: if_splits)
  have "parse_HHmm s
        = Some (10 * digit_val h1 + digit_val h2, 10 * digit_val m1 + digit_val m2)"
    unfolding s using d b by (simp add: parse_HHmm_def digits_val_def)
  then show ?thesis using b n by blast
qed

lemma set_clock:
  assumes "0 \<le> h" "h \<le> 23" "0 \<le> m" "m \<le> 59"
    and "offset_steady_on_day z (Day (LocalTime_in z r)) c"
  shows "setMinutes_in z (setHours_in z r h 0 0 0) m 0 0
         = Day (LocalTime_in z r) * msPerDay + (h * 60 + m) * 60000 - c"
proof -
  define d where "d = Day (LocalTime_in z r)"
  have steady: "offsetAtLocal z L = c" "offsetAtUTC z (L - c) = c" if "Day L = d" for L
    using assms(5) that by (simp_all add: offset_steady_on_day_def d_def)
  have hb: "0 \<le> h * 3600000" "h * 3600000 < msPerDay" using assms by (simp_all add: msPerDay_def)
  have day1: "Day (d * msPerDay + h * 3600000) = d"
    using Day_of_day_plus [OF hb] .
  have "setHours_in z r h 0 0 0 = d * msPerDay + h * 3600000 - c"
    using steady(1) [OF day1]
    by (simp add: setHours_in_def Let_def d_def [symmetric] MakeDate_def MakeTime_def UTC_in_def)
  then have t1: "LocalTime_in z (setHours_in z r h 0 0 0) = d * msPerDay + h * 3600000"
    using steady(2) [OF day1] by (simp add: LocalTime_in_def)
  have "d * msPerDay + h * 3600000 = 3600000 * (d * 24 + h) + 0"
    by (simp add: msPerDay_def)
  then have "(d * msPerDay + h * 3600000) div 3600000 = d * 24 + h"
    by (metis int_div_pos_eq order_refl zero_less_numeral)
  then have hour: "HourFromTime (d * msPerDay + h * 3600000) = h"
    using assms by (simp add: HourFromTime_def)
  have mb: "0 \<le> (h * 60 + m) * 60000" "(h * 60 + m) * 60000 < msPerDay"
    using assms by (simp_all add: msPerDay_def)
  have day2: "Day (d * msPerDay + (h * 60 + m) * 60000) = d"
    using Day_of_day_plus [OF mb] .
  have "MakeDate d (MakeTime h m 0 0) = d * msPerDay + (h * 60 + m) * 60000"
    by (simp add: MakeDate_def MakeTime_def algebra_simps)
  then show ?thesis
    unfolding setMinutes_in_def Let_def t1 day1 hour
    using steady(1) [OF day2] by (simp add: UTC_in_def d_def [symmetric])
qed

lemma trunc_div_mult:
  assumes "0 < b"
  shows "trunc_div (k * b) b = k"
proof (cases "k * b < 0")
  case True
  have "- (k * b) = (- k) * b" by simp
  then have "(- (k * b)) div b = - k" using assms by (metis nonzero_mult_div_cancel_right less_irrefl)
  then show ?thesis using True by (simp add: trunc_div_def)
next
  case False
  then show ?thesis using assms by (simp add: trunc_div_def)
qed

lemma steady_central_europe_winter: "offset_steady_on_day central_europe_2024 19723 3600000"
proof -
  have "offsetAtLocal central_europe_2024 L = 3600000
        \<and> offsetAtUTC central_europe_2024 (L - 3600000) = 3600000" if "Day L = 19723" for L
  proof -
    have "L < (Day L + 1) * msPerDay" by (rule Day_bounds)
    then have "L < 1704153600000" by (simp add: that msPerDay_def)
    then show ?thesis by (simp add: central_europe_2024_def)
  qed
  then show ?thesis by (simp add: offset_steady_on_day_def)
qed

text \<open>
  C2, as stated: the hours of an entry with both times present are the minutes of
  time-out minus the minutes of time-in, minus the break, divided by 60. This fails on a
  day with a daylight-saving change. In Central European time the clock is put forward
  from 02:00 to 03:00 on 2024-03-31, so from 01:00 to 04:00 of that day two hours pass,
  and those are the hours of the entry, while the two clock times are 180 minutes apart.
\<close>

theorem hours_across_clock_change_counterexample:
  "clock_minutes ''01:00'' = Some 60 \<and> clock_minutes ''04:00'' = Some 240
   \<and> calculateHoursForLog central_europe_2024
       \<lparr>logId = None, date = ''2024-03-31'', timeIn = Some ''01:00'', timeOut = Some ''04:00'',
        breakMinutes = 0, createdAt = None, updatedAt = None\<rparr> = Num 2
   \<and> Num ((of_int (int 240 - int 60) - of_int 0) / 60) = Num 3"
  by (simp add: hours_eval parse_eval calendar_eval central_europe_2024_def)

text \<open>
  C2, amended. For an entry whose time-in and time-out are \<open>HH:mm\<close> clock times, on a
  date that \<open>new Date\<close> reads, and with the offset of the local zone steady on the local
  day on which that instant (midnight UTC of the date) falls, the hours are the minutes
  of time-out minus the minutes of time-in, minus the break, divided by 60. Nothing is
  rounded and nothing is clamped: 09:00 to 17:00 with a break of 30 gives 7.5, 17:00 to
  09:00 with no break gives -8, and 09:15 to 17:40 with a break of 20 gives 97/12.
\<close>

theorem hours_of_complete_entry:
  assumes "timeIn entry = Some a" and "timeOut entry = Some b"
    and "clock_minutes a = Some ma" and "clock_minutes b = Some mb"
    and "new_Date (date entry) = Some r"
    and "offset_steady_on_day z (Day (LocalTime_in z r)) c"
  shows "calculateHoursForLog z entry
         = Num ((of_int (int mb - int ma) - of_int (breakMinutes entry)) / 60)"
proof -
  note r = assms(5)
  from clock_minutes_parse [OF assms(3)] obtain h1 m1
    where a: "parse_HHmm a = Some (h1, m1)" "h1 \<le> 23" "m1 \<le> 59" "ma = h1 * 60 + m1" by blast
  from clock_minutes_parse [OF assms(4)] obtain h2 m2
    where b: "parse_HHmm b = Some (h2, m2)" "h2 \<le> 23" "m2 \<le> 59" "mb = h2 * 60 + m2" by blast
  have ne: "a \<noteq> []" "b \<noteq> []" using assms(3,4) by auto
  define d where "d = Day (LocalTime_in z r)"
  have p1: "parse z a (Some r) = Some (d * msPerDay + int ma * 60000 - c)"
    using a(2,3) by (simp add: parse_def a(1,4) set_clock [OF _ _ _ _ assms(6)] d_def)
  have p2: "parse z b (Some r) = Some (d * msPerDay + int mb * 60000 - c)"
    using b(2,3) by (simp add: parse_def b(1,4) set_clock [OF _ _ _ _ assms(6)] d_def)
  have "(d * msPerDay + int mb * 60000 - c) - (d * msPerDay + int ma * 60000 - c)
        = (int mb - int ma) * 60000"
    by (simp add: algebra_simps)
  then have diff: "differenceInMinutes (parse z b (Some r)) (parse z a (Some r))
        = Num (of_int (int mb - int ma))"
    unfolding p1 p2 differenceInMinutes_def by (simp only: prod.case option.case trunc_div_mult)
  show ?thesis
    unfolding calculateHoursForLog_def Let_def assms(1,2) r
    using ne by (simp add: falsy_def diff)
qed

theorem hours_of_complete_entry_witness:
  "calculateHoursForLog central_europe_2024
     \<lparr>logId = None, date = ''2024-01-01'', timeIn = Some ''09:00'', timeOut = Some ''17:00'',
     breakMinutes = 30, createdAt = None, updatedAt = None\<rparr> = Num (15 / 2)
   \<and> calculateHoursForLog central_europe_2024
     \<lparr>logId = None, date = ''2024-01-01'', timeIn = Some ''17:00'', timeOut = Some ''09:00'',
     breakMinutes = 0, createdAt = None, updatedAt = None\<rparr> = Num (- 8)
   \<and> calculateHoursForLog central_europe_2024
     \<lparr>logId = None, date = ''2024-01-01'', timeIn = Some ''09:15'', timeOut = Some ''17:40'',
     breakMinutes = 20, createdAt = None, updatedAt = None\<rparr> = Num (97 / 12)"
proof -
  have t: "clock_minutes ''09:00'' = Some 540" "clock_minutes ''17:00'' = Some 1020"
    "clock_minutes ''09:15'' = Some 555" "clock_minutes ''17:40'' = Some 1060"
    by (simp_all add: parse_eval)
  have d: "new_Date ''2024-01-01'' = Some 1704067200000"
    by (simp add: parse_eval calendar_eval)
  have day: "Day (LocalTime_in central_europe_2024 1704067200000) = 19723"
    by (simp add: LocalTime_in_def central_europe_2024_def calendar_eval)
  have steady: "offset_steady_on_day central_europe_2024
      (Day (LocalTime_in central_europe_2024 1704067200000)) 3600000"
    by (simp only: day steady_central_europe_winter)
  have "calculateHoursForLog central_europe_2024
     \<lparr>logId = None, date = ''2024-01-01'', timeIn = Some ''09:00'', timeOut = Some ''17:00'',
     breakMinutes = 30, createdAt = None, updatedAt = None\<rparr> = Num (15 / 2)"
    by (subst hours_of_complete_entry [OF _ _ t(1) t(2) _ steady]) (simp_all add: d)
  moreover have "calculateHoursForLog central_europe_2024
     \<lparr>logId = None, date = ''2024-01-01'', timeIn = Some ''17:00'', timeOut = Some ''09:00'',
     breakMinutes = 0, createdAt = None, updatedAt = None\<rparr> = Num (- 8)"
    by (subst hours_of_complete_entry [OF _ _ t(2) t(1) _ steady]) (simp_all add: d)
  moreover have "calculateHoursForLog central_europe_2024
     \<lparr>logId = None, date = ''2024-01-01'', timeIn = Some ''09:15'', timeOut = Some ''17:40'',
     breakMinutes = 20, createdAt = None, updatedAt = None\<rparr> = Num (97 / 12)"
    by (subst hours_of_complete_entry [OF _ _ t(3) t(4) _ steady]) (simp_all add: d)
  ultimately show ?thesis by (intro conjI)
qed

section \<open>Properties of the daily and weekly totals\<close>

lemma num_add_zero_right: "num_add w (Num 0) = w"
  by (cases w) simp_all

lemma toFixed2_zero: "toFixed2 (Num 0) = Num 0"
proof -
  have "\<lfloor>(1::rat) / 2\<rfloor> = 0" by (rule floor_unique) simp_all
  then show ?thesis by (simp add: toFixed2_def)
qed

lemma Day_day_start: "Day (LocalTime tza (day_start tza d)) = d"
  using Day_of_day_plus [of 0 d] msPerDay_pos by (simp add: day_start_def LocalTime_def)

lemma getDay_day_start: "getDay tza (day_start tza d) = (d + 4) mod 7"
  by (simp add: getDay_def WeekDay_def Day_day_start)

lemma weekday_offsets:
  fixes L :: int
  defines "r \<equiv> (L + 3) mod 7" and "wd \<equiv> (L + 4) mod 7"
  shows "(if wd < 1 then 7 else 0) + wd - 1 = r"
    and "(if wd < 1 then - 7 else 0) + 6 - (wd - 1) = 6 - r"
proof -
  have r: "0 \<le> r" "r < 7" by (simp_all add: r_def)
  have "((L + 3) mod 7 + 1) mod 7 = (L + 3 + 1) mod 7" by (rule mod_add_left_eq)
  moreover have "L + 3 + 1 = L + 4" by simp
  ultimately have w: "wd = (r + 1) mod 7" by (simp only: wd_def r_def)
  have c: "(if wd < 1 then 7 else 0) + wd - 1 = r \<and> (if wd < 1 then - 7 else 0) + 6 - (wd - 1) = 6 - r"
  proof (cases "r = 6")
    case True
    then show ?thesis using w by simp
  next
    case False
    then have "r + 1 < 7" "0 \<le> r + 1" using r by simp_all
    then have "wd = r + 1" using w by simp
    then show ?thesis using r by simp
  qed
  show "(if wd < 1 then 7 else 0) + wd - 1 = r" using c by simp
  show "(if wd < 1 then - 7 else 0) + 6 - (wd - 1) = 6 - r" using c by simp
qed

lemma iso_week_monday_mult: "iso_week_monday d = 7 * ((d + 3) div 7) - 3"
proof -
  have "d + 3 - (d + 3) mod 7 = 7 * ((d + 3) div 7)" by (rule minus_mod_eq_mult_div)
  then show ?thesis by (simp add: iso_week_monday_def)
qed

lemma weekday_in_week: "(iso_week_monday d + k + 4) mod 7 = (k + 1) mod 7"
proof -
  have "iso_week_monday d + k + 4 = 7 * ((d + 3) div 7) + (k + 1)"
    by (simp add: iso_week_monday_mult)
  then show ?thesis by (simp only: mod_mult_self4)
qed

lemma iso_week_monday_range: "iso_week_monday d \<le> d" "d < iso_week_monday d + 7"
proof -
  have "0 \<le> (d + 3) mod 7" "(d + 3) mod 7 < 7" by simp_all
  then show "iso_week_monday d \<le> d" "d < iso_week_monday d + 7"
    by (simp_all add: iso_week_monday_def)
qed

lemma iso_week_monday_spec: "getDay tza (day_start tza (iso_week_monday d)) = 1"
  using weekday_in_week [of d 0] by (simp add: getDay_day_start)

lemma Day_LocalTime_shift: "Day (LocalTime tza (t + n * msPerDay)) = Day (LocalTime tza t) + n"
proof -
  have "LocalTime tza (t + n * msPerDay) = LocalTime tza t + n * msPerDay"
    by (simp add: LocalTime_def)
  then show ?thesis by (simp only: Day_shift)
qed

lemma startOfWeek_monday:
  "startOfWeek tza 1 t = day_start tza (iso_week_monday (Day (LocalTime tza t)))"
proof -
  define L where "L = Day (LocalTime tza t)"
  define diff where "diff = (if getDay tza t < 1 then 7 else 0) + getDay tza t - 1"
  have wd: "getDay tza t = (L + 4) mod 7" by (simp add: getDay_def WeekDay_def L_def)
  have d: "L - diff = iso_week_monday L"
    unfolding diff_def wd iso_week_monday_def using weekday_offsets(1) [of L] by simp
  have "setDate tza t (getDate tza t - diff) = t + (- diff) * msPerDay"
    using setDate_getDate [of tza t "- diff"] by simp
  moreover have "Day (LocalTime tza (t + (- diff) * msPerDay)) = L - diff"
    using Day_LocalTime_shift [of tza t "- diff"] by (simp add: L_def)
  ultimately have "setHours tza (setDate tza t (getDate tza t - diff)) 0 0 0 0
      = day_start tza (L - diff)"
    by (simp only: setHours_midnight day_start_def)
  then show ?thesis
    unfolding startOfWeek_def Let_def diff_def [symmetric] d L_def [symmetric] .
qed

lemma endOfWeek_sunday:
  "endOfWeek tza 1 t = day_start tza (iso_week_monday (Day (LocalTime tza t)) + 6) + 86399999"
proof -
  define L where "L = Day (LocalTime tza t)"
  define diff where "diff = (if getDay tza t < 1 then - 7 else 0) + 6 - (getDay tza t - 1)"
  have wd: "getDay tza t = (L + 4) mod 7" by (simp add: getDay_def WeekDay_def L_def)
  have d: "L + diff = iso_week_monday L + 6"
    unfolding diff_def wd iso_week_monday_def using weekday_offsets(2) [of L] by simp
  have "setDate tza t (getDate tza t + diff) = t + diff * msPerDay"
    by (rule setDate_getDate)
  moreover have "Day (LocalTime tza (t + diff * msPerDay)) = L + diff"
    using Day_LocalTime_shift [of tza t diff] by (simp add: L_def)
  ultimately have "setHours tza (setDate tza t (getDate tza t + diff)) 23 59 59 999
      = day_start tza (L + diff) + 86399999"
    by (simp add: setHours_def MakeDate_def MakeTime_def UTC_def day_start_def)
  then show ?thesis
    unfolding endOfWeek_def Let_def diff_def [symmetric] d L_def [symmetric] .
qed

lemma next_day_start_of_day:
  "setHours tza (setDate tza (day_start tza m) (getDate tza (day_start tza m) + 1)) 0 0 0 0
     = day_start tza (m + 1)"
  unfolding next_day_start Day_day_start by (simp add: day_start_def)

lemma eachDay_loop_days:
  assumes "0 \<le> x" "x < msPerDay"
  shows "eachDay_loop tza (day_start tza m) (day_start tza (m + int n) + x)
         = map (\<lambda>i. day_start tza (m + int i)) [0..<Suc n]"
proof (induction n arbitrary: m)
  case 0
  have 1: "day_start tza m \<le> day_start tza m + x" using assms by simp
  have 2: "\<not> day_start tza (m + 1) \<le> day_start tza m + x"
    using assms by (simp add: day_start_def algebra_simps)
  show ?case
    apply (subst eachDay_loop.simps)
    apply (simp only: next_day_start_of_day)
    apply (subst eachDay_loop.simps)
    using 1 2 by simp
next
  case (Suc n)
  have 1: "day_start tza m \<le> day_start tza (m + int (Suc n)) + x"
    using assms msPerDay_pos by (simp add: day_start_def algebra_simps)
  have e: "m + int (Suc n) = (m + 1) + int n" by simp
  have l: "[0..<Suc (Suc n)] = 0 # map Suc [0..<Suc n]"
    by (simp only: map_Suc_upt upt_conv_Cons [of 0 "Suc (Suc n)"] zero_less_Suc if_True)
  have "eachDay_loop tza (day_start tza m) (day_start tza (m + int (Suc n)) + x)
      = day_start tza m # eachDay_loop tza (day_start tza (m + 1)) (day_start tza ((m + 1) + int n) + x)"
    apply (subst eachDay_loop.simps)
    using 1 by (simp only: next_day_start_of_day e if_True)
  also have "\<dots> = day_start tza m # map (\<lambda>i. day_start tza ((m + 1) + int i)) [0..<Suc n]"
    by (simp only: Suc.IH)
  also have "\<dots> = map (\<lambda>i. day_start tza (m + int i)) [0..<Suc (Suc n)]"
    unfolding l by (simp add: comp_def add.commute add.left_commute)
  finally show ?case .
qed

lemma week_days:
  "eachDayOfInterval tza (startOfWeek tza 1 t) (endOfWeek tza 1 t)
   = map (\<lambda>i. day_start tza (iso_week_monday (Day (LocalTime tza t)) + int i)) [0..<7]"
proof -
  define M where "M = iso_week_monday (Day (LocalTime tza t))"
  have le: "\<not> day_start tza (M + 6) + 86399999 < day_start tza M"
    using msPerDay_pos by (simp add: day_start_def algebra_simps)
  have st: "setHours tza (day_start tza M) 0 0 0 0 = day_start tza M"
    unfolding setHours_midnight Day_day_start by (simp add: day_start_def)
  have "eachDay_loop tza (day_start tza M) (day_start tza (M + int 6) + 86399999)
        = map (\<lambda>i. day_start tza (M + int i)) [0..<Suc 6]"
    by (rule eachDay_loop_days) (simp_all add: msPerDay_def)
  then show ?thesis
    unfolding startOfWeek_monday endOfWeek_sunday M_def [symmetric] eachDayOfInterval_def Let_def
    using le st by (simp add: eval_nat_numeral)
qed

lemma weekdays_of_week:
  "filter (\<lambda>d. \<not> isWeekend tza d) (eachDayOfInterval tza (startOfWeek tza 1 t) (endOfWeek tza 1 t))
   = iso_week_weekdays tza t"
proof -
  define M where "M = iso_week_monday (Day (LocalTime tza t))"
  have g: "getDay tza (day_start tza (M + k)) = (k + 1) mod 7" for k
    unfolding getDay_day_start M_def by (rule weekday_in_week)
  have u: "[0..<7] = [0, 1, 2, 3, 4, 5, 6]" by (simp add: upt_rec)
  have w: "\<not> isWeekend tza (day_start tza (M + 0))" "\<not> isWeekend tza (day_start tza (M + 1))"
    "\<not> isWeekend tza (day_start tza (M + 2))" "\<not> isWeekend tza (day_start tza (M + 3))"
    "\<not> isWeekend tza (day_start tza (M + 4))" "isWeekend tza (day_start tza (M + 5))"
    "isWeekend tza (day_start tza (M + 6))"
    unfolding isWeekend_def Let_def g by simp_all
  show ?thesis
    unfolding week_days iso_week_weekdays_def M_def [symmetric] u using w by simp
qed

lemma week_fold:
  "foldl (week_step tza logs) acc days
   = foldl num_add acc (map (hours_on_day tza logs) (filter (\<lambda>d. \<not> isWeekend tza d) days))"
proof (induction days arbitrary: acc)
  case Nil
  show ?case by simp
next
  case (Cons d ds)
  have "week_step tza logs acc d = (if isWeekend tza d then acc else num_add acc (hours_on_day tza logs d))"
    by (simp add: week_step_def hours_on_day_def Let_def num_add_zero_right split: option.splits)
  then show ?case using Cons.IH by simp
qed

lemma aggregate_by_weekdays:
  "aggregate tza (Some logs) today None carry
   = \<lparr>dailyHours = hours_on_day tza logs today,
      weeklyHours =
        toFixed2 (if logs \<noteq> []
                  then num_add (num_sum (map (hours_on_day tza logs) (iso_week_weekdays tza today)))
                         carry
                  else Num 0),
      savedHolidayHours' = (if logs = [] \<and> num_gt carry (Num 0) then Num 0 else carry)\<rparr>"
  by (simp add: aggregate_def Let_def week_fold weekdays_of_week num_sum_def hours_on_day_def)

lemma aggregate_manual:
  "aggregate tza (Some logs) today (Some manual) carry
   = \<lparr>dailyHours = hours_on_day tza logs today, weeklyHours = manual,
      savedHolidayHours' = carry\<rparr>"
  by (simp add: aggregate_def Let_def hours_on_day_def)

lemma example_week:
  "iso_week_weekdays 3600000 1704300000000
   = [1704063600000, 1704150000000, 1704236400000, 1704322800000, 1704409200000]"
  by (simp add: iso_week_weekdays_def iso_week_monday_def day_start_def calendar_eval)

lemma example_days:
  "format_yyyy_MM_dd 3600000 1704063600000 = ''2024-01-01''"
  "format_yyyy_MM_dd 3600000 1704150000000 = ''2024-01-02''"
  "format_yyyy_MM_dd 3600000 1704236400000 = ''2024-01-03''"
  "format_yyyy_MM_dd 3600000 1704322800000 = ''2024-01-04''"
  "format_yyyy_MM_dd 3600000 1704409200000 = ''2024-01-05''"
  "format_yyyy_MM_dd 3600000 1704300000000 = ''2024-01-03''"
  by (simp_all add: format_eval calendar_eval)

lemma example_hours:
  "calculateHoursForLog (fixed_zone 3600000)
     \<lparr>logId = None, date = ''2024-01-01'', timeIn = Some ''09:00'', timeOut = Some ''17:00'',
      breakMinutes = 30, createdAt = None, updatedAt = None\<rparr> = Num (15 / 2)"
  "calculateHoursForLog (fixed_zone 3600000)
     \<lparr>logId = None, date = ''2024-01-03'', timeIn = Some ''08:00'', timeOut = Some ''12:00'',
      breakMinutes = 0, createdAt = None, updatedAt = None\<rparr> = Num 4"
  "calculateHoursForLog (fixed_zone 3600000)
     \<lparr>logId = None, date = ''2024-01-03'', timeIn = Some ''09:00'', timeOut = Some ''17:00'',
      breakMinutes = 30, createdAt = None, updatedAt = None\<rparr> = Num (15 / 2)"
  by (simp_all add: hours_eval parse_eval calendar_eval)

text \<open>
  C1, as stated: the weekly total is the sum of the hours of the entries whose date is
  one of Monday to Friday of the week of today, plus the saved holiday hours, rounded.
  This fails when two entries have the same date. With today Wednesday 2024-01-03 and
  two entries of that date, of 4 hours and of 7.5 hours, the sum over the entries is
  11.5, while the weekly total is 4: each weekday is looked up with \<open>find\<close>, which
  returns the first entry of that date only.
\<close>

theorem weekly_total_same_date_counterexample:
  "weeklyHours (aggregate 3600000 (Some
     [\<lparr>logId = None, date = ''2024-01-03'', timeIn = Some ''08:00'', timeOut = Some ''12:00'',
       breakMinutes = 0, createdAt = None, updatedAt = None\<rparr>,
      \<lparr>logId = None, date = ''2024-01-03'', timeIn = Some ''09:00'', timeOut = Some ''17:00'',
       breakMinutes = 30, createdAt = None, updatedAt = None\<rparr>]) 1704300000000 None (Num 0))
   = Num 4
   \<and> toFixed2 (num_add (hours_of_weekday_entries 3600000
     [\<lparr>logId = None, date = ''2024-01-03'', timeIn = Some ''08:00'', timeOut = Some ''12:00'',
       breakMinutes = 0, createdAt = None, updatedAt = None\<rparr>,
      \<lparr>logId = None, date = ''2024-01-03'', timeIn = Some ''09:00'', timeOut = Some ''17:00'',
       breakMinutes = 30, createdAt = None, updatedAt = None\<rparr>] 1704300000000) (Num 0))
   = Num (23 / 2)"
  by (simp add: aggregate_by_weekdays example_week hours_on_day_def hours_of_weekday_entries_def
      example_days example_hours num_sum_def toFixed2_def floor_rat_numeral)

text \<open>
  C1, amended. For a non-empty log collection and no manual weekly hours, the weekly
  total is the sum, over Monday to Friday of the week (starting on Monday) that contains
  today, of the hours of the first entry in collection order whose date is that day, a
  day without an entry counting 0, plus the saved holiday hours, rounded to two decimals
  by \<open>toFixed2\<close>.
\<close>

theorem weekly_total_of_week:
  assumes "logs \<noteq> []"
  shows "weeklyHours (aggregate tza (Some logs) today None carry)
         = toFixed2 (num_add (num_sum (map (hours_on_day tza logs) (iso_week_weekdays tza today))) carry)"
  using assms by (simp add: aggregate_by_weekdays)

theorem weekly_total_of_week_witness:
  "[\<lparr>logId = None, date = ''2023-12-29'', timeIn = Some ''09:00'', timeOut = Some ''17:00'',
      breakMinutes = 30, createdAt = None, updatedAt = None\<rparr>,
     \<lparr>logId = None, date = ''2024-01-01'', timeIn = Some ''09:00'', timeOut = Some ''17:00'',
      breakMinutes = 30, createdAt = None, updatedAt = None\<rparr>,
     \<lparr>logId = None, date = ''2024-01-03'', timeIn = Some ''08:00'', timeOut = Some ''12:00'',
      breakMinutes = 0, createdAt = None, updatedAt = None\<rparr>,
     \<lparr>logId = None, date = ''2024-01-06'', timeIn = Some ''10:00'', timeOut = Some ''15:00'',
      breakMinutes = 0, createdAt = None, updatedAt = None\<rparr>] \<noteq> []
   \<and> weeklyHours (aggregate 3600000 (Some
    [\<lparr>logId = None, date = ''2023-12-29'', timeIn = Some ''09:00'', timeOut = Some ''17:00'',
      breakMinutes = 30, createdAt = None, updatedAt = None\<rparr>,
     \<lparr>logId = None, date = ''2024-01-01'', timeIn = Some ''09:00'', timeOut = Some ''17:00'',
      breakMinutes = 30, createdAt = None, updatedAt = None\<rparr>,
     \<lparr>logId = None, date = ''2024-01-03'', timeIn = Some ''08:00'', timeOut = Some ''12:00'',
      breakMinutes = 0, createdAt = None, updatedAt = None\<rparr>,
     \<lparr>logId = None, date = ''2024-01-06'', timeIn = Some ''10:00'', timeOut = Some ''15:00'',
      breakMinutes = 0, createdAt = None, updatedAt = None\<rparr>]) 1704300000000 None (Num (617 / 500)))
     = Num (1273 / 100)"
proof -
  define logs where "logs =
    [\<lparr>logId = None, date = ''2023-12-29'', timeIn = Some ''09:00'', timeOut = Some ''17:00'',
      breakMinutes = 30, createdAt = None, updatedAt = None\<rparr>,
     \<lparr>logId = None, date = ''2024-01-01'', timeIn = Some ''09:00'', timeOut = Some ''17:00'',
      breakMinutes = 30, createdAt = None, updatedAt = None\<rparr>,
     \<lparr>logId = None, date = ''2024-01-03'', timeIn = Some ''08:00'', timeOut = Some ''12:00'',
      breakMinutes = 0, createdAt = None, updatedAt = None\<rparr>,
     \<lparr>logId = None, date = ''2024-01-06'', timeIn = Some ''10:00'', timeOut = Some ''15:00'',
      breakMinutes = 0, createdAt = None, updatedAt = None\<rparr>]"
  have ne: "logs \<noteq> []" by (simp add: logs_def)
  have rhs: "toFixed2 (num_add (num_sum (map (hours_on_day 3600000 logs)
               (iso_week_weekdays 3600000 1704300000000))) (Num (617 / 500))) = Num (1273 / 100)"
    by (simp add: example_week hours_on_day_def example_days logs_def example_hours num_sum_def
        toFixed2_def floor_rat_numeral)
  have "weeklyHours (aggregate 3600000 (Some logs) 1704300000000 None (Num (617 / 500)))
      = Num (1273 / 100)"
    using weekly_total_of_week [OF ne, of 3600000 1704300000000 "Num (617 / 500)"]
    by (simp only: rhs)
  then show ?thesis using ne unfolding logs_def by blast
qed

text \<open>
  C3. When the manual weekly hours are set, the weekly total of a loaded log collection
  is that value itself, whatever the logs, the current time and the saved holiday hours
  are: nothing of the week's days enters the result.
\<close>

theorem override_is_weekly_total:
  "weeklyHours (aggregate tza (Some logs) today (Some manual) carry) = manual"
  by (simp add: aggregate_def Let_def)

text \<open>
  C5. When the manual weekly hours are set, a run leaves the saved holiday hours as they
  were, also on an empty collection (and while the collection is loading): the return
  for the manual value comes before the reset.
\<close>

theorem override_keeps_carry:
  "savedHolidayHours' (aggregate tza logs today (Some manual) carry) = carry"
  by (cases logs) (simp_all add: aggregate_def Let_def)

text \<open>
  C4, as stated: on an empty collection the weekly total is 0 and the saved holiday hours
  are reset to 0. This fails when the manual weekly hours are set: with manual hours 5
  and saved holiday hours 3 the weekly total is 5 and the saved hours stay 3.
\<close>

theorem empty_logs_with_override_counterexample:
  "weeklyHours (aggregate 0 (Some []) 0 (Some (Num 5)) (Num 3)) = Num 5
   \<and> weeklyHours (aggregate 0 (Some []) 0 (Some (Num 5)) (Num 3)) \<noteq> Num 0
   \<and> savedHolidayHours' (aggregate 0 (Some []) 0 (Some (Num 5)) (Num 3)) = Num 3
   \<and> savedHolidayHours' (aggregate 0 (Some []) 0 (Some (Num 5)) (Num 3)) \<noteq> Num 0"
  by (simp add: aggregate_def Let_def)

text \<open>
  C4, amended. On an empty collection with no manual weekly hours set, the weekly total
  is 0 whatever the saved holiday hours are, and saved holiday hours that are a number
  not below 0 (the data model has no others) are 0 after the run.
\<close>

theorem empty_logs_reset:
  "weeklyHours (aggregate tza (Some []) today None carry) = Num 0
   \<and> (carry = Num c \<and> 0 \<le> c \<longrightarrow>
        savedHolidayHours' (aggregate tza (Some []) today None carry) = Num 0)"
  by (auto simp add: aggregate_def Let_def toFixed2_zero)

theorem empty_logs_reset_witness:
  "weeklyHours (aggregate 0 (Some []) 0 None (Num 3)) = Num 0
   \<and> Num 3 = Num 3 \<and> (0::rat) \<le> 3
   \<and> savedHolidayHours' (aggregate 0 (Some []) 0 None (Num 3)) = Num 0"
  using empty_logs_reset [of 0 0 "Num 3" 3] by simp







section \<open>Properties of the filtered and sorted list\<close>

lemma keep_log_valid:
  assumes "valid_date (date entry)"
  shows "keep_log tza f entry = Inr (matches f entry)"
proof -
  from parseISO_format [OF assms, of tza] obtain t where
    t: "parseISO tza (date entry) = Some t" "format_yyyy tza t = take 4 (date entry)"
       "format_MM tza t = take 2 (drop 5 (date entry))"
    by blast
  show ?thesis
    unfolding keep_log_def Let_def t(1) format_def
    by (auto simp add: t(2,3) matches_def not_less)
qed

lemma filter_logs_valid:
  assumes "\<forall>entry \<in> set logs. valid_date (date entry)"
  shows "filter_logs tza f logs = Inr (filter (matches f) logs)"
  using assms by (induction logs) (simp_all add: keep_log_valid)

lemma collect_valid:
  assumes "\<forall>entry \<in> set logs. valid_date (date entry)"
  shows "collect_years_months tza logs years months
         = Inr (foldl (\<lambda>s entry. Set_add (take 4 (date entry)) s) years logs,
                foldl (\<lambda>s entry. Set_add (take 2 (drop 5 (date entry))) s) months logs)"
  using assms
proof (induction logs arbitrary: years months)
  case Nil
  show ?case by simp
next
  case (Cons entry rest)
  from parseISO_format [of "date entry" tza] Cons.prems obtain t where
    t: "parseISO tza (date entry) = Some t" "format_yyyy tza t = take 4 (date entry)"
       "format_MM tza t = take 2 (drop 5 (date entry))"
    by auto
  show ?case using Cons by (simp add: t format_def)
qed

lemma Set_add_fold:
  "set (foldl (\<lambda>s entry. Set_add (g entry) s) acc logs) = set acc \<union> g ` set logs"
  "distinct acc \<Longrightarrow> distinct (foldl (\<lambda>s entry. Set_add (g entry) s) acc logs)"
  by (induction logs arbitrary: acc) (auto simp add: Set_add_def)

lemma set_insert_by: "set (insert_by cmp x ys) = insert x (set ys)"
  by (induction ys) auto

lemma mset_insert_by: "mset (insert_by cmp x ys) = add_mset x (mset ys)"
  by (induction ys) auto

lemma mset_sort_by: "mset (sort_by cmp xs) = mset xs"
  by (induction xs) (simp_all add: sort_by_def mset_insert_by)

lemma set_sort_by: "set (sort_by cmp xs) = set xs"
  using mset_sort_by [of cmp xs] by (metis set_mset_mset)

lemma distinct_sort_by: "distinct (sort_by cmp xs) = distinct xs"
  using mset_sort_by [of cmp xs] by (metis mset_eq_imp_distinct_iff)

lemma sorted_insert_by:
  assumes R: "\<And>a b. R a b = (\<not> num_gt (cmp a b) (Num 0))"
    and tot: "\<And>a b. a \<in> A \<Longrightarrow> b \<in> A \<Longrightarrow> R a b \<or> R b a"
    and tr: "\<And>a b c. a \<in> A \<Longrightarrow> b \<in> A \<Longrightarrow> c \<in> A \<Longrightarrow> R a b \<Longrightarrow> R b c \<Longrightarrow> R a c"
    and "x \<in> A" "set ys \<subseteq> A" "sorted_wrt R ys"
  shows "sorted_wrt R (insert_by cmp x ys)"
  using assms(4-6)
proof (induction ys)
  case Nil
  show ?case by simp
next
  case (Cons y ys)
  show ?case
  proof (cases "num_gt (cmp x y) (Num 0)")
    case True
    then have "R y x" using tot [of x y] R Cons.prems by auto
    then show ?thesis using True Cons by (auto simp add: set_insert_by)
  next
    case False
    then have xy: "R x y" using R by simp
    have "R x z" if "z \<in> set ys" for z
      using tr [of x y z] xy that Cons.prems by auto
    then show ?thesis using False xy Cons.prems by auto
  qed
qed

lemma sorted_sort_by:
  assumes R: "\<And>a b. R a b = (\<not> num_gt (cmp a b) (Num 0))"
    and tot: "\<And>a b. a \<in> A \<Longrightarrow> b \<in> A \<Longrightarrow> R a b \<or> R b a"
    and tr: "\<And>a b c. a \<in> A \<Longrightarrow> b \<in> A \<Longrightarrow> c \<in> A \<Longrightarrow> R a b \<Longrightarrow> R b c \<Longrightarrow> R a c"
    and "set xs \<subseteq> A"
  shows "sorted_wrt R (sort_by cmp xs)"
  using assms(4)
proof (induction xs)
  case Nil
  show ?case by (simp add: sort_by_def)
next
  case (Cons x xs)
  have "sorted_wrt R (insert_by cmp x (sort_by cmp xs))"
    by (rule sorted_insert_by [of R cmp A, OF R tot tr]) (use Cons in \<open>auto simp add: set_sort_by\<close>)
  then show ?case by (simp add: sort_by_def)
qed

lemma localeCompare_gt: "num_gt (localeCompare a b) (Num 0) = (b < a)"
  by (auto simp add: localeCompare_def)

lemma sort_by_descending:
  "sorted (rev (sort_by (\<lambda>a b. localeCompare b a) (xs :: string list)))"
proof -
  have "sorted_wrt (\<lambda>a b. b \<le> a) (sort_by (\<lambda>a b. localeCompare b a) xs)"
    by (rule sorted_sort_by [where A = UNIV]) (auto simp add: localeCompare_gt)
  then show ?thesis by (simp add: sorted_wrt_rev)
qed

lemma sort_by_ascending:
  "sorted (sort_by (\<lambda>a b. localeCompare a b) (xs :: string list))"
  by (rule sorted_sort_by [where A = UNIV]) (auto simp add: localeCompare_gt)

lemma matches_2024_03:
  assumes "valid_date (date entry)"
  shows "matches \<lparr>filterYear = ''2024'', filterMonth = ''03'', filterStartDate = [],
           filterEndDate = []\<rparr> entry
         = (take 7 (date entry) = ''2024-03'')"
proof -
  from assms obtain y m d where "parse_ymd (date entry) = Some (y, m, d)"
    by (auto simp add: valid_date_def split: option.splits)
  then obtain y1 y2 y3 y4 m1 m2 d1 d2 where
    "date entry = [y1, y2, y3, y4, CHR ''-'', m1, m2, CHR ''-'', d1, d2]"
    by (rule parse_ymd_SomeE)
  then show ?thesis by (auto simp add: matches_def)
qed

text \<open>
  C6. When every entry has a date of the data model, the memo returns, and the visible
  list holds exactly the entries that satisfy every set filter, each as often as the
  collection holds it: the year of the date equals the year filter, the month equals
  the month filter, the date is not before the start date and not after the end date,
  the dates compared as strings. With the year 2024 and the month 03 these are the
  entries whose date starts with 2024-03.
\<close>

theorem visible_entries:
  assumes "\<forall>entry \<in> set logs. valid_date (date entry)"
  shows "(\<exists>r. view tza (Some logs) order f = Inr r
             \<and> mset (filteredAndSortedLogs r) = mset (filter (matches f) logs))
         \<and> (\<exists>r. view tza (Some logs) order
                   \<lparr>filterYear = ''2024'', filterMonth = ''03'', filterStartDate = [],
                    filterEndDate = []\<rparr> = Inr r
             \<and> mset (filteredAndSortedLogs r)
                 = mset (filter (\<lambda>entry. take 7 (date entry) = ''2024-03'') logs))"
proof -
  have "filter (matches \<lparr>filterYear = ''2024'', filterMonth = ''03'', filterStartDate = [],
           filterEndDate = []\<rparr>) logs
        = filter (\<lambda>entry. take 7 (date entry) = ''2024-03'') logs"
    by (rule filter_cong [OF refl]) (use assms matches_2024_03 in blast)
  then show ?thesis
    by (simp add: view_def collect_valid [OF assms] filter_logs_valid [OF assms] mset_sort_by)
qed

theorem visible_entries_witness:
  "valid_date ''2024-03-05'' \<and> valid_date ''2023-12-31'' \<and> valid_date ''2024-03-01'' \<and> valid_date ''2024-11-02'' \<and> valid_date ''2022-03-09''
   \<and> (\<exists>r. view 3600000 (Some
     [\<lparr>logId = None, date = ''2024-03-05'', timeIn = None, timeOut = None,
       breakMinutes = 0, createdAt = None, updatedAt = None\<rparr>,
     \<lparr>logId = None, date = ''2023-12-31'', timeIn = None, timeOut = None,
       breakMinutes = 0, createdAt = None, updatedAt = None\<rparr>,
     \<lparr>logId = None, date = ''2024-03-01'', timeIn = None, timeOut = None,
       breakMinutes = 0, createdAt = None, updatedAt = None\<rparr>,
     \<lparr>logId = None, date = ''2024-11-02'', timeIn = None, timeOut = None,
       breakMinutes = 0, createdAt = None, updatedAt = None\<rparr>,
     \<lparr>logId = None, date = ''2022-03-09'', timeIn = None, timeOut = None,
       breakMinutes = 0, createdAt = None, updatedAt = None\<rparr>])
       Desc \<lparr>filterYear = ''2024'', filterMonth = [], filterStartDate = ''2024-03-02'',
             filterEndDate = ''2024-11-02''\<rparr> = Inr r
       \<and> mset (filteredAndSortedLogs r) = mset
     [\<lparr>logId = None, date = ''2024-03-05'', timeIn = None, timeOut = None,
       breakMinutes = 0, createdAt = None, updatedAt = None\<rparr>,
     \<lparr>logId = None, date = ''2024-11-02'', timeIn = None, timeOut = None,
       breakMinutes = 0, createdAt = None, updatedAt = None\<rparr>])
   \<and> (\<exists>r. view 3600000 (Some
     [\<lparr>logId = None, date = ''2024-03-05'', timeIn = None, timeOut = None,
       breakMinutes = 0, createdAt = None, updatedAt = None\<rparr>,
     \<lparr>logId = None, date = ''2023-12-31'', timeIn = None, timeOut = None,
       breakMinutes = 0, createdAt = None, updatedAt = None\<rparr>,
     \<lparr>logId = None, date = ''2024-03-01'', timeIn = None, timeOut = None,
       breakMinutes = 0, createdAt = None, updatedAt = None\<rparr>,
     \<lparr>logId = None, date = ''2024-11-02'', timeIn = None, timeOut = None,
       breakMinutes = 0, createdAt = None, updatedAt = None\<rparr>,
     \<lparr>logId = None, date = ''2022-03-09'', timeIn = None, timeOut = None,
       breakMinutes = 0, createdAt = None, updatedAt = None\<rparr>])
       Desc \<lparr>filterYear = ''2024'', filterMonth = ''03'', filterStartDate = [],
             filterEndDate = []\<rparr> = Inr r
       \<and> mset (filteredAndSortedLogs r) = mset
     [\<lparr>logId = None, date = ''2024-03-05'', timeIn = None, timeOut = None,
       breakMinutes = 0, createdAt = None, updatedAt = None\<rparr>,
     \<lparr>logId = None, date = ''2024-03-01'', timeIn = None, timeOut = None,
       breakMinutes = 0, createdAt = None, updatedAt = None\<rparr>])"
proof -
  define logs where "logs =
     [\<lparr>logId = None, date = ''2024-03-05'', timeIn = None, timeOut = None,
       breakMinutes = 0, createdAt = None, updatedAt = None\<rparr>,
     \<lparr>logId = None, date = ''2023-12-31'', timeIn = None, timeOut = None,
       breakMinutes = 0, createdAt = None, updatedAt = None\<rparr>,
     \<lparr>logId = None, date = ''2024-03-01'', timeIn = None, timeOut = None,
       breakMinutes = 0, createdAt = None, updatedAt = None\<rparr>,
     \<lparr>logId = None, date = ''2024-11-02'', timeIn = None, timeOut = None,
       breakMinutes = 0, createdAt = None, updatedAt = None\<rparr>,
     \<lparr>logId = None, date = ''2022-03-09'', timeIn = None, timeOut = None,
       breakMinutes = 0, createdAt = None, updatedAt = None\<rparr>]"
  have v: "valid_date ''2024-03-05'' \<and> valid_date ''2023-12-31'' \<and> valid_date ''2024-03-01'' \<and> valid_date ''2024-11-02'' \<and> valid_date ''2022-03-09''"
    by (simp add: parse_eval calendar_eval)
  then have a: "\<forall>entry \<in> set logs. valid_date (date entry)" by (simp add: logs_def)
  have f1: "filter (matches \<lparr>filterYear = ''2024'', filterMonth = [],
        filterStartDate = ''2024-03-02'', filterEndDate = ''2024-11-02''\<rparr>) logs =
     [\<lparr>logId = None, date = ''2024-03-05'', timeIn = None, timeOut = None,
       breakMinutes = 0, createdAt = None, updatedAt = None\<rparr>,
     \<lparr>logId = None, date = ''2024-11-02'', timeIn = None, timeOut = None,
       breakMinutes = 0, createdAt = None, updatedAt = None\<rparr>]"
    by (simp add: logs_def matches_def)
  have f2: "filter (\<lambda>entry. take 7 (date entry) = ''2024-03'') logs =
     [\<lparr>logId = None, date = ''2024-03-05'', timeIn = None, timeOut = None,
       breakMinutes = 0, createdAt = None, updatedAt = None\<rparr>,
     \<lparr>logId = None, date = ''2024-03-01'', timeIn = None, timeOut = None,
       breakMinutes = 0, createdAt = None, updatedAt = None\<rparr>]"
    by (simp add: logs_def)
  show ?thesis
    using visible_entries [OF a, of 3600000 Desc "\<lparr>filterYear = ''2024'', filterMonth = [],
        filterStartDate = ''2024-03-02'', filterEndDate = ''2024-11-02''\<rparr>"] v
    unfolding f1 f2 unfolding logs_def by blast
qed

text \<open>
  C8. When every entry has a date of the data model, the memo returns, the years are
  the distinct years of all entries in descending order and the months the distinct
  months of all entries in ascending order. Neither the filters nor the sort direction
  enter these two lists.
\<close>

theorem years_and_months:
  assumes "\<forall>entry \<in> set logs. valid_date (date entry)"
  shows "\<exists>r. view tza (Some logs) order f = Inr r
             \<and> availableYears r = rev (sort (remdups (map (\<lambda>entry. take 4 (date entry)) logs)))
             \<and> availableMonths r = sort (remdups (map (\<lambda>entry. take 2 (drop 5 (date entry))) logs))"
proof -
  define ys where "ys = foldl (\<lambda>s entry. Set_add (take 4 (date entry)) s) [] logs"
  define ms where "ms = foldl (\<lambda>s entry. Set_add (take 2 (drop 5 (date entry))) s) [] logs"
  have v: "view tza (Some logs) order f
        = Inr \<lparr>filteredAndSortedLogs = sort_by (compare_logs order) (filter (matches f) logs),
               availableYears = sort_by (\<lambda>a b. localeCompare b a) ys,
               availableMonths = sort_by (\<lambda>a b. localeCompare a b) ms\<rparr>"
    by (simp add: view_def collect_valid [OF assms] filter_logs_valid [OF assms] ys_def ms_def)
  have "rev (sort_by (\<lambda>a b. localeCompare b a) ys)
        = sort (remdups (map (\<lambda>entry. take 4 (date entry)) logs))"
    by (rule sorted_distinct_set_unique)
      (simp_all add: sort_by_descending distinct_sort_by set_sort_by ys_def Set_add_fold)
  then have y: "sort_by (\<lambda>a b. localeCompare b a) ys
        = rev (sort (remdups (map (\<lambda>entry. take 4 (date entry)) logs)))"
    by (metis rev_rev_ident)
  have m: "sort_by (\<lambda>a b. localeCompare a b) ms
        = sort (remdups (map (\<lambda>entry. take 2 (drop 5 (date entry))) logs))"
    by (rule sorted_distinct_set_unique)
      (simp_all add: sort_by_ascending distinct_sort_by set_sort_by ms_def Set_add_fold)
  show ?thesis unfolding v using y m by simp
qed

theorem years_and_months_witness:
  "valid_date ''2024-03-05'' \<and> valid_date ''2023-12-31'' \<and> valid_date ''2024-03-01'' \<and> valid_date ''2024-11-02'' \<and> valid_date ''2022-03-09''
   \<and> (\<exists>r. view 3600000 (Some
     [\<lparr>logId = None, date = ''2024-03-05'', timeIn = None, timeOut = None,
       breakMinutes = 0, createdAt = None, updatedAt = None\<rparr>,
     \<lparr>logId = None, date = ''2023-12-31'', timeIn = None, timeOut = None,
       breakMinutes = 0, createdAt = None, updatedAt = None\<rparr>,
     \<lparr>logId = None, date = ''2024-03-01'', timeIn = None, timeOut = None,
       breakMinutes = 0, createdAt = None, updatedAt = None\<rparr>,
     \<lparr>logId = None, date = ''2024-11-02'', timeIn = None, timeOut = None,
       breakMinutes = 0, createdAt = None, updatedAt = None\<rparr>,
     \<lparr>logId = None, date = ''2022-03-09'', timeIn = None, timeOut = None,
       breakMinutes = 0, createdAt = None, updatedAt = None\<rparr>])
       Asc \<lparr>filterYear = ''2024'', filterMonth = ''03'', filterStartDate = [],
            filterEndDate = []\<rparr> = Inr r
       \<and> availableYears r = [''2024'', ''2023'', ''2022'']
       \<and> availableMonths r = [''03'', ''11'', ''12''])"
proof -
  define logs where "logs =
     [\<lparr>logId = None, date = ''2024-03-05'', timeIn = None, timeOut = None,
       breakMinutes = 0, createdAt = None, updatedAt = None\<rparr>,
     \<lparr>logId = None, date = ''2023-12-31'', timeIn = None, timeOut = None,
       breakMinutes = 0, createdAt = None, updatedAt = None\<rparr>,
     \<lparr>logId = None, date = ''2024-03-01'', timeIn = None, timeOut = None,
       breakMinutes = 0, createdAt = None, updatedAt = None\<rparr>,
     \<lparr>logId = None, date = ''2024-11-02'', timeIn = None, timeOut = None,
       breakMinutes = 0, createdAt = None, updatedAt = None\<rparr>,
     \<lparr>logId = None, date = ''2022-03-09'', timeIn = None, timeOut = None,
       breakMinutes = 0, createdAt = None, updatedAt = None\<rparr>]"
  have v: "valid_date ''2024-03-05'' \<and> valid_date ''2023-12-31'' \<and> valid_date ''2024-03-01'' \<and> valid_date ''2024-11-02'' \<and> valid_date ''2022-03-09''"
    by (simp add: parse_eval calendar_eval)
  then have a: "\<forall>entry \<in> set logs. valid_date (date entry)" by (simp add: logs_def)
  have y: "rev (sort (remdups (map (\<lambda>entry. take 4 (date entry)) logs)))
      = [''2024'', ''2023'', ''2022'']"
    by (simp add: logs_def)
  have m: "sort (remdups (map (\<lambda>entry. take 2 (drop 5 (date entry))) logs))
      = [''03'', ''11'', ''12'']"
    by (simp add: logs_def)
  show ?thesis
    using years_and_months [OF a, of 3600000 Asc "\<lparr>filterYear = ''2024'', filterMonth = ''03'',
        filterStartDate = [], filterEndDate = []\<rparr>"] v
    unfolding y m unfolding logs_def by blast
qed

lemma valid_date_parse: "valid_date s \<Longrightarrow> parse_ymd s \<noteq> None"
  by (auto simp add: valid_date_def split: option.splits)

lemma compare_asc_gt:
  assumes "valid_date (date a)" "valid_date (date b)"
  shows "num_gt (compare_logs Asc a b) (Num 0) = (date b < date a)"
proof -
  from new_Date_order [OF valid_date_parse [OF assms(2)] valid_date_parse [OF assms(1)]]
  obtain tb ta where t: "new_Date (date b) = Some tb" "new_Date (date a) = Some ta"
    "(tb < ta) = (date b < date a)"
    by blast
  have "num_gt (compare_logs Asc a b) (Num 0) = ((0::rat) < of_int ta - of_int tb)"
    by (simp add: compare_logs_def getTime_def t(1,2))
  also have "\<dots> = (tb < ta)" by simp
  finally show ?thesis using t(3) by simp
qed

lemma compare_desc_gt: "num_gt (compare_logs Desc a b) (Num 0) = (date a < date b)"
  by (simp add: compare_logs_def Let_def localeCompare_gt)

lemma sort_asc_sorted:
  assumes "\<forall>entry \<in> set logs. valid_date (date entry)"
  shows "sorted (map date (sort_by (compare_logs Asc) logs))"
proof -
  define R where "R = (\<lambda>a b. \<not> num_gt (compare_logs Asc a b) (Num 0))"
  have R: "R a b = (date a \<le> date b)" if "a \<in> set logs" "b \<in> set logs" for a b
    using compare_asc_gt [of a b] that assms by (auto simp add: R_def not_less)
  have "sorted_wrt R (sort_by (compare_logs Asc) logs)"
  proof (rule sorted_sort_by [where A = "set logs"])
    show "R a b = (\<not> num_gt (compare_logs Asc a b) (Num 0))" for a b by (simp add: R_def)
    show "R a b \<or> R b a" if "a \<in> set logs" "b \<in> set logs" for a b
      using R that by auto
    show "R a c" if "a \<in> set logs" "b \<in> set logs" "c \<in> set logs" "R a b" "R b c" for a b c
      using R that by auto
    show "set logs \<subseteq> set logs" by simp
  qed
  then have "sorted_wrt (\<lambda>a b. date a \<le> date b) (sort_by (compare_logs Asc) logs)"
    by (rule sorted_wrt_mono_rel [rotated]) (simp add: R set_sort_by)
  then show ?thesis by (simp add: sorted_map)
qed

lemma sort_desc_sorted: "sorted (map date (rev (sort_by (compare_logs Desc) logs)))"
proof -
  have "sorted_wrt (\<lambda>a b. date b \<le> date a) (sort_by (compare_logs Desc) logs)"
    by (rule sorted_sort_by [where A = UNIV]) (auto simp add: compare_desc_gt)
  then show ?thesis by (simp add: sorted_map sorted_wrt_rev)
qed

lemma filter_no_filters: "filter (matches no_filters) logs = logs"
  by (simp add: matches_def no_filters_def)

text \<open>
  C7. When the entries have dates of the data model that differ from one another and
  no filter is set, both sort directions return, and the ascending list, ordered by
  the time values of the dates, is the reverse of the descending list, ordered by the
  date strings; both hold exactly the entries of the collection.
\<close>

theorem ascending_is_reverse_of_descending:
  assumes "\<forall>entry \<in> set logs. valid_date (date entry)" and "distinct (map date logs)"
  shows "\<exists>ra rd. view tza (Some logs) Asc no_filters = Inr ra
           \<and> view tza (Some logs) Desc no_filters = Inr rd
           \<and> filteredAndSortedLogs ra = rev (filteredAndSortedLogs rd)
           \<and> mset (filteredAndSortedLogs ra) = mset logs"
proof -
  define up where "up = sort_by (compare_logs Asc) logs"
  define down where "down = sort_by (compare_logs Desc) logs"
  have m: "mset up = mset logs" "mset down = mset logs"
    by (simp_all add: up_def down_def mset_sort_by)
  have s: "set up = set logs" "set down = set logs"
    by (simp_all add: up_def down_def set_sort_by)
  have inj: "inj_on date (set logs)" using assms(2) by (simp add: distinct_map)
  have d: "distinct up" "distinct down"
    using assms(2) by (simp_all add: up_def down_def distinct_sort_by distinct_map)
  have "map date up = map date (rev down)"
  proof (rule sorted_distinct_set_unique)
    show "sorted (map date up)" unfolding up_def by (rule sort_asc_sorted [OF assms(1)])
    show "sorted (map date (rev down))" unfolding down_def by (rule sort_desc_sorted)
    show "distinct (map date up)" using d(1) inj by (simp add: distinct_map s)
    show "distinct (map date (rev down))" using d(2) inj by (simp add: distinct_map s)
    show "set (map date up) = set (map date (rev down))" by (simp add: s)
  qed
  moreover have "inj_on date (set up \<union> set (rev down))" using inj by (simp add: s)
  ultimately have e: "up = rev down" by (simp add: inj_on_map_eq_map)
  have va: "view tza (Some logs) Asc no_filters
      = Inr \<lparr>filteredAndSortedLogs = up,
             availableYears = sort_by (\<lambda>a b. localeCompare b a)
               (foldl (\<lambda>s entry. Set_add (take 4 (date entry)) s) [] logs),
             availableMonths = sort_by (\<lambda>a b. localeCompare a b)
               (foldl (\<lambda>s entry. Set_add (take 2 (drop 5 (date entry))) s) [] logs)\<rparr>"
    by (simp add: view_def collect_valid [OF assms(1)] filter_logs_valid [OF assms(1)]
        filter_no_filters up_def)
  have vd: "view tza (Some logs) Desc no_filters
      = Inr \<lparr>filteredAndSortedLogs = down,
             availableYears = sort_by (\<lambda>a b. localeCompare b a)
               (foldl (\<lambda>s entry. Set_add (take 4 (date entry)) s) [] logs),
             availableMonths = sort_by (\<lambda>a b. localeCompare a b)
               (foldl (\<lambda>s entry. Set_add (take 2 (drop 5 (date entry))) s) [] logs)\<rparr>"
    by (simp add: view_def collect_valid [OF assms(1)] filter_logs_valid [OF assms(1)]
        filter_no_filters down_def)
  show ?thesis unfolding va vd using e m by simp
qed

theorem ascending_is_reverse_of_descending_witness:
  "valid_date ''2024-03-05'' \<and> valid_date ''2023-12-31'' \<and> valid_date ''2024-03-01'' \<and> valid_date ''2024-11-02'' \<and> valid_date ''2022-03-09''
   \<and> distinct [''2024-03-05'', ''2023-12-31'', ''2024-03-01'', ''2024-11-02'', ''2022-03-09'']
   \<and> (\<exists>ra rd. view 3600000 (Some
     [\<lparr>logId = None, date = ''2024-03-05'', timeIn = None, timeOut = None,
       breakMinutes = 0, createdAt = None, updatedAt = None\<rparr>,
     \<lparr>logId = None, date = ''2023-12-31'', timeIn = None, timeOut = None,
       breakMinutes = 0, createdAt = None, updatedAt = None\<rparr>,
     \<lparr>logId = None, date = ''2024-03-01'', timeIn = None, timeOut = None,
       breakMinutes = 0, createdAt = None, updatedAt = None\<rparr>,
     \<lparr>logId = None, date = ''2024-11-02'', timeIn = None, timeOut = None,
       breakMinutes = 0, createdAt = None, updatedAt = None\<rparr>,
     \<lparr>logId = None, date = ''2022-03-09'', timeIn = None, timeOut = None,
       breakMinutes = 0, createdAt = None, updatedAt = None\<rparr>])
       Asc no_filters = Inr ra
     \<and> view 3600000 (Some
     [\<lparr>logId = None, date = ''2024-03-05'', timeIn = None, timeOut = None,
       breakMinutes = 0, createdAt = None, updatedAt = None\<rparr>,
     \<lparr>logId = None, date = ''2023-12-31'', timeIn = None, timeOut = None,
       breakMinutes = 0, createdAt = None, updatedAt = None\<rparr>,
     \<lparr>logId = None, date = ''2024-03-01'', timeIn = None, timeOut = None,
       breakMinutes = 0, createdAt = None, updatedAt = None\<rparr>,
     \<lparr>logId = None, date = ''2024-11-02'', timeIn = None, timeOut = None,
       breakMinutes = 0, createdAt = None, updatedAt = None\<rparr>,
     \<lparr>logId = None, date = ''2022-03-09'', timeIn = None, timeOut = None,
       breakMinutes = 0, createdAt = None, updatedAt = None\<rparr>])
       Desc no_filters = Inr rd
     \<and> filteredAndSortedLogs ra = rev (filteredAndSortedLogs rd)
     \<and> mset (filteredAndSortedLogs ra) = mset
     [\<lparr>logId = None, date = ''2024-03-05'', timeIn = None, timeOut = None,
       breakMinutes = 0, createdAt = None, updatedAt = None\<rparr>,
     \<lparr>logId = None, date = ''2023-12-31'', timeIn = None, timeOut = None,
       breakMinutes = 0, createdAt = None, updatedAt = None\<rparr>,
     \<lparr>logId = None, date = ''2024-03-01'', timeIn = None, timeOut = None,
       breakMinutes = 0, createdAt = None, updatedAt = None\<rparr>,
     \<lparr>logId = None, date = ''2024-11-02'', timeIn = None, timeOut = None,
       breakMinutes = 0, createdAt = None, updatedAt = None\<rparr>,
     \<lparr>logId = None, date = ''2022-03-09'', timeIn = None, timeOut = None,
       breakMinutes = 0, createdAt = None, updatedAt = None\<rparr>])"
proof -
  define logs where "logs =
     [\<lparr>logId = None, date = ''2024-03-05'', timeIn = None, timeOut = None,
       breakMinutes = 0, createdAt = None, updatedAt = None\<rparr>,
     \<lparr>logId = None, date = ''2023-12-31'', timeIn = None, timeOut = None,
       breakMinutes = 0, createdAt = None, updatedAt = None\<rparr>,
     \<lparr>logId = None, date = ''2024-03-01'', timeIn = None, timeOut = None,
       breakMinutes = 0, createdAt = None, updatedAt = None\<rparr>,
     \<lparr>logId = None, date = ''2024-11-02'', timeIn = None, timeOut = None,
       breakMinutes = 0, createdAt = None, updatedAt = None\<rparr>,
     \<lparr>logId = None, date = ''2022-03-09'', timeIn = None, timeOut = None,
       breakMinutes = 0, createdAt = None, updatedAt = None\<rparr>]"
  have v: "valid_date ''2024-03-05'' \<and> valid_date ''2023-12-31'' \<and> valid_date ''2024-03-01'' \<and> valid_date ''2024-11-02'' \<and> valid_date ''2022-03-09''"
    by (simp add: parse_eval calendar_eval)
  then have a: "\<forall>entry \<in> set logs. valid_date (date entry)" by (simp add: logs_def)
  have d: "distinct [''2024-03-05'', ''2023-12-31'', ''2024-03-01'', ''2024-11-02'', ''2022-03-09'']"
    by simp
  then have b: "distinct (map date logs)" by (simp add: logs_def)
  show ?thesis
    using ascending_is_reverse_of_descending [OF a b, of 3600000] v d
    unfolding logs_def by blast
qed

section \<open>Further properties\<close>

text \<open>
  X1. The daily total of a loaded collection is the hours of the first entry whose date
  is today's date in local time, and 0 when there is none, with or without manual
  weekly hours.
\<close>

theorem daily_hours_of_today:
  "dailyHours (aggregate tza (Some logs) today manual carry) = hours_on_day tza logs today"
  by (cases manual) (simp_all add: aggregate_by_weekdays aggregate_manual)

text \<open>
  X2. While the collection is loading (no collection yet), both totals are 0, also when
  manual weekly hours are set, and the saved holiday hours are left as they are.
\<close>

theorem totals_while_loading:
  "aggregate tza None today manual carry
   = \<lparr>dailyHours = Num 0, weeklyHours = Num 0, savedHolidayHours' = carry\<rparr>"
  by (simp add: aggregate_def)

text \<open>
  X3. On date strings of the data model the two comparators of the sort agree: the
  difference of the time values of \<open>b\<close> and \<open>a\<close> is above 0 exactly when the string
  \<open>a\<close> is below the string \<open>b\<close>.
\<close>

theorem time_order_is_string_order:
  assumes "valid_date a" and "valid_date b"
  shows "num_gt (num_sub (getTime (new_Date b)) (getTime (new_Date a))) (Num 0) = (a < b)"
proof -
  from new_Date_order [OF valid_date_parse [OF assms(1)] valid_date_parse [OF assms(2)]]
  obtain ta tb where t: "new_Date a = Some ta" "new_Date b = Some tb" "(ta < tb) = (a < b)"
    by blast
  have "num_gt (num_sub (getTime (new_Date b)) (getTime (new_Date a))) (Num 0)
        = ((0::rat) < of_int tb - of_int ta)"
    by (simp add: getTime_def t(1,2))
  also have "\<dots> = (ta < tb)" by simp
  finally show ?thesis using t(3) by simp
qed

theorem time_order_is_string_order_witness:
  "valid_date ''2023-12-31'' \<and> valid_date ''2024-01-01''
   \<and> num_gt (num_sub (getTime (new_Date ''2024-01-01'')) (getTime (new_Date ''2023-12-31''))) (Num 0)"
proof -
  have v: "valid_date ''2023-12-31''" "valid_date ''2024-01-01''"
    by (simp_all add: parse_eval calendar_eval)
  have "''2023-12-31'' < ''2024-01-01''" by simp
  then show ?thesis using time_order_is_string_order [OF v] v by simp
qed

text \<open>
  X4. On a collection with dates of the data model the visible list is in the order of
  the sort direction: ascending by date for \<open>Asc\<close>, descending by date for \<open>Desc\<close>,
  under every filter.
\<close>

theorem visible_list_is_sorted:
  assumes "\<forall>entry \<in> set logs. valid_date (date entry)"
  shows "(\<exists>r. view tza (Some logs) Asc f = Inr r
              \<and> sorted (map date (filteredAndSortedLogs r)))
         \<and> (\<exists>r. view tza (Some logs) Desc f = Inr r
              \<and> sorted (rev (map date (filteredAndSortedLogs r))))"
proof -
  have "\<forall>entry \<in> set (filter (matches f) logs). valid_date (date entry)"
    using assms by simp
  then have "sorted (map date (sort_by (compare_logs Asc) (filter (matches f) logs)))"
    by (rule sort_asc_sorted)
  moreover have "sorted (rev (map date (sort_by (compare_logs Desc) (filter (matches f) logs))))"
    using sort_desc_sorted [of "filter (matches f) logs"] by (simp add: rev_map)
  ultimately show ?thesis
    by (simp add: view_def collect_valid [OF assms] filter_logs_valid [OF assms])
qed

theorem visible_list_is_sorted_witness:
  "valid_date ''2024-03-05'' \<and> valid_date ''2023-12-31'' \<and> valid_date ''2024-03-01'' \<and> valid_date ''2024-11-02'' \<and> valid_date ''2022-03-09''
   \<and> (\<exists>r. view 3600000 (Some
     [\<lparr>logId = None, date = ''2024-03-05'', timeIn = None, timeOut = None,
       breakMinutes = 0, createdAt = None, updatedAt = None\<rparr>,
     \<lparr>logId = None, date = ''2023-12-31'', timeIn = None, timeOut = None,
       breakMinutes = 0, createdAt = None, updatedAt = None\<rparr>,
     \<lparr>logId = None, date = ''2024-03-01'', timeIn = None, timeOut = None,
       breakMinutes = 0, createdAt = None, updatedAt = None\<rparr>,
     \<lparr>logId = None, date = ''2024-11-02'', timeIn = None, timeOut = None,
       breakMinutes = 0, createdAt = None, updatedAt = None\<rparr>,
     \<lparr>logId = None, date = ''2022-03-09'', timeIn = None, timeOut = None,
       breakMinutes = 0, createdAt = None, updatedAt = None\<rparr>])
       Asc no_filters = Inr r
       \<and> sorted (map date (filteredAndSortedLogs r)))
   \<and> (\<exists>r. view 3600000 (Some
     [\<lparr>logId = None, date = ''2024-03-05'', timeIn = None, timeOut = None,
       breakMinutes = 0, createdAt = None, updatedAt = None\<rparr>,
     \<lparr>logId = None, date = ''2023-12-31'', timeIn = None, timeOut = None,
       breakMinutes = 0, createdAt = None, updatedAt = None\<rparr>,
     \<lparr>logId = None, date = ''2024-03-01'', timeIn = None, timeOut = None,
       breakMinutes = 0, createdAt = None, updatedAt = None\<rparr>,
     \<lparr>logId = None, date = ''2024-11-02'', timeIn = None, timeOut = None,
       breakMinutes = 0, createdAt = None, updatedAt = None\<rparr>,
     \<lparr>logId = None, date = ''2022-03-09'', timeIn = None, timeOut = None,
       breakMinutes = 0, createdAt = None, updatedAt = None\<rparr>])
       Desc no_filters = Inr r
       \<and> sorted (rev (map date (filteredAndSortedLogs r))))"
proof -
  define logs where "logs =
     [\<lparr>logId = None, date = ''2024-03-05'', timeIn = None, timeOut = None,
       breakMinutes = 0, createdAt = None, updatedAt = None\<rparr>,
     \<lparr>logId = None, date = ''2023-12-31'', timeIn = None, timeOut = None,
       breakMinutes = 0, createdAt = None, updatedAt = None\<rparr>,
     \<lparr>logId = None, date = ''2024-03-01'', timeIn = None, timeOut = None,
       breakMinutes = 0, createdAt = None, updatedAt = None\<rparr>,
     \<lparr>logId = None, date = ''2024-11-02'', timeIn = None, timeOut = None,
       breakMinutes = 0, createdAt = None, updatedAt = None\<rparr>,
     \<lparr>logId = None, date = ''2022-03-09'', timeIn = None, timeOut = None,
       breakMinutes = 0, createdAt = None, updatedAt = None\<rparr>]"
  have v: "valid_date ''2024-03-05'' \<and> valid_date ''2023-12-31'' \<and> valid_date ''2024-03-01'' \<and> valid_date ''2024-11-02'' \<and> valid_date ''2022-03-09''"
    by (simp add: parse_eval calendar_eval)
  then have a: "\<forall>entry \<in> set logs. valid_date (date entry)" by (simp add: logs_def)
  show ?thesis
    using visible_list_is_sorted [OF a, of 3600000 no_filters] v
    unfolding logs_def by blast
qed

text \<open>
  X5. A date string of the data model, read by \<open>parseISO\<close> and printed with the pattern
  \<open>yyyy-MM-dd\<close>, gives the string back, in every time zone.
\<close>

theorem format_of_parseISO:
  assumes "valid_date s"
  shows "\<exists>t. parseISO tza s = Some t \<and> format_yyyy_MM_dd tza t = s"
proof -
  from assms obtain y m d where p: "parse_ymd s = Some (y, m, d)" and y1: "1 \<le> y"
    by (auto simp add: valid_date_def split: option.splits)
  from p obtain y1 y2 y3 y4 m1 m2 d1 d2 where
    s: "s = [y1, y2, y3, y4, CHR ''-'', m1, m2, CHR ''-'', d1, d2]"
    and dg: "list_all is_digit [d1, d2]"
    and v: "d = int (digits_val [d1, d2])"
    and b: "1 \<le> m" "m \<le> 12" "1 \<le> d" "d \<le> DaysInMonth y m"
    by (rule parse_ymd_SomeE)
  from parseISO_format [OF assms, of tza] obtain t where
    t: "parseISO tza s = Some t" "format_yyyy tza t = take 4 s"
       "format_MM tza t = take 2 (drop 5 s)"
    by blast
  have "t = UTC tza (MakeDate (MakeDay y (m - 1) d) 0)"
    using t(1) by (simp add: parseISO_def p)
  then have "Day (LocalTime tza t) = MakeDay y (m - 1) d"
    using Day_of_day_plus [of 0 "MakeDay y (m - 1) d"] msPerDay_pos
    by (simp add: LocalTime_def UTC_def MakeDate_def)
  note c = civil_of_MakeDay [OF b this]
  have "format_dd tza t = addLeadingZeros d 2"
    by (simp add: format_dd_def getDate_def c(3))
  also have "\<dots> = [d1, d2]"
    using addLeadingZeros_digits [OF dg] by (simp add: v eval_nat_numeral)
  finally have "format_yyyy_MM_dd tza t = s"
    by (simp add: format_yyyy_MM_dd_def t(2,3)) (simp add: s)
  then show ?thesis using t(1) by blast
qed

theorem format_of_parseISO_witness:
  "valid_date ''2024-02-29''
   \<and> (\<exists>t. parseISO (- 18000000) ''2024-02-29'' = Some t
         \<and> format_yyyy_MM_dd (- 18000000) t = ''2024-02-29'')"
proof -
  have v: "valid_date ''2024-02-29''" by (simp add: parse_eval calendar_eval)
  show ?thesis using format_of_parseISO [OF v, of "- 18000000"] v by blast
qed

text \<open>
  X6. For a number of magnitude below \<open>10^21\<close> the rounding of the weekly total gives a
  whole number of hundredths that differs from the number by at most half a hundredth.
\<close>

theorem toFixed2_nearest_hundredth:
  assumes "\<bar>r\<bar> < 10 ^ 21"
  shows "\<exists>n::int. toFixed2 (Num r) = Num (of_int n / 100) \<and> \<bar>of_int n / 100 - r\<bar> \<le> 1 / 200"
proof -
  define k where "k = \<lfloor>\<bar>r\<bar> * 100 + 1 / 2\<rfloor>"
  have lo: "of_int k \<le> \<bar>r\<bar> * 100 + 1 / 2" unfolding k_def by (rule of_int_floor_le)
  have hi: "\<bar>r\<bar> * 100 + 1 / 2 < of_int k + 1" unfolding k_def by linarith
  have d: "\<bar>of_int k / 100 - \<bar>r\<bar>\<bar> \<le> 1 / 200"
    using lo hi by linarith
  show ?thesis
  proof (cases "r < 0")
    case True
    have "toFixed2 (Num r) = Num (of_int (- k) / 100)"
      using assms True by (simp add: toFixed2_def k_def)
    moreover have "\<bar>of_int (- k) / 100 - r\<bar> \<le> 1 / 200"
      using d True by (simp add: abs_if split: if_splits)
    ultimately show ?thesis by blast
  next
    case False
    have "toFixed2 (Num r) = Num (of_int k / 100)"
      using assms False by (simp add: toFixed2_def k_def)
    moreover have "\<bar>of_int k / 100 - r\<bar> \<le> 1 / 200"
      using d False by simp
    ultimately show ?thesis by blast
  qed
qed

theorem toFixed2_nearest_hundredth_witness:
  "\<bar>6367 / 500 :: rat\<bar> < 10 ^ 21
   \<and> (\<exists>n::int. toFixed2 (Num (6367 / 500)) = Num (of_int n / 100)
        \<and> \<bar>of_int n / 100 - 6367 / 500 :: rat\<bar> \<le> 1 / 200)"
proof -
  have h: "\<bar>6367 / 500 :: rat\<bar> < 10 ^ 21" by simp
  show ?thesis using toFixed2_nearest_hundredth [OF h] h by blast
qed

end
